theory Spec2Isabelle
  imports Complex_Main "HOL-Library.Sublist"
begin

section \<open>Data model (types.go, exceptions.go)\<close>

text \<open>
  Go strings and byte slices are lists of bytes (\<open>char\<close> is the 8-bit byte, so
  \<open>string\<close> is \<open>[]byte\<close>). A \<open>float64\<close> is modelled as a real number: the model does
  the arithmetic of the source exactly, without the rounding, the infinities and the NaN
  of IEEE 754. A Go \<open>int\<close>, \<open>int64\<close> or \<open>time.Duration\<close> is an unbounded integer:
  the model has no wrap-around. A \<open>time.Duration\<close> counts nanoseconds.
\<close>

datatype error =
    ErrUnknownResponse
  | ErrUnexpectedResponse
  | ErrNoAudioReceived
  | ErrWebSocket
  | ErrSkewAdjustment
  | ErrInvalidVoice
  | ErrInvalidRate
  | ErrInvalidVolume
  | ErrInvalidPitch
  | ErrStreamAlreadyCalled
  | ErrJSON
  | ErrDial
  | ErrWrite
  | ErrRead
  | ErrContext

text \<open>
  The last five are the errors the source does not name: \<open>ErrJSON\<close> is the error of
  \<open>json.Unmarshal\<close>, \<open>ErrDial\<close>, \<open>ErrWrite\<close> and \<open>ErrRead\<close> are the wrapped errors of the
  websocket library, \<open>ErrContext\<close> is \<open>ctx.Err()\<close>.
\<close>

record TTSChunk =
  Type :: string
  Data :: string
  Duration :: real
  Offset :: real
  Text :: string

record TTSConfig =
  Voice :: string
  Rate :: string
  Volume :: string
  Pitch :: string
  Boundary :: string

record CommunicateState =
  PartialText :: string
  OffsetCompensation :: real
  LastDurationOffset :: real
  StreamWasCalled :: bool

text \<open>One entry of \<open>MetadataResponse.Metadata\<close>; the nested fields are flattened.\<close>

record Metadata =
  Meta_Type :: string
  Data_Offset :: real
  Data_Duration :: real
  Data_Text_Text :: string

record Subtitle =
  Index :: int
  Start :: int
  End :: int
  Content :: string

record SubMaker =
  Cues :: "Subtitle list"
  CueType :: string

record Communicate =
  ttsConfig :: TTSConfig
  texts :: "string list"
  state :: CommunicateState

record DRM =
  clockSkewSeconds :: real

definition byte :: "char \<Rightarrow> nat" where
  "byte c = of_char c"

definition newline :: char where
  "newline = CHR 0x0A"

definition space :: char where
  "space = CHR 0x20"

definition amp :: char where
  "amp = CHR ''&''"

definition semicolon :: char where
  "semicolon = CHR '';''"

text \<open>The conversion of a \<open>float64\<close> to \<open>int64\<close> drops the fraction (towards zero).\<close>

definition float_to_int :: "real \<Rightarrow> int" where
  "float_to_int x = (if 0 \<le> x then \<lfloor>x\<rfloor> else \<lceil>x\<rceil>)"

text \<open>Go's integer division and remainder truncate towards zero.\<close>

definition go_div :: "int \<Rightarrow> int \<Rightarrow> int" where
  "go_div a b = sgn a * sgn b * (\<bar>a\<bar> div \<bar>b\<bar>)"

definition go_mod :: "int \<Rightarrow> int \<Rightarrow> int" where
  "go_mod a b = sgn a * (\<bar>a\<bar> mod \<bar>b\<bar>)"

definition Microsecond :: int where
  "Microsecond = 1000"

text \<open>
  An \<open>int64\<close> (and so a \<open>time.Duration\<close>) holds its value modulo \<open>2^64\<close>, between
  \<open>-2^63\<close> and \<open>2^63 - 1\<close>: a product that leaves this range wraps around.
\<close>

definition wrap64 :: "int \<Rightarrow> int" where
  "wrap64 i = (i + 9223372036854775808) mod 18446744073709551616 - 9223372036854775808"

text \<open>
  The conversion of a \<open>float64\<close> to \<open>int64\<close> or \<open>time.Duration\<close>. For a value that
  \<open>int64\<close> cannot hold, the language leaves the result to the implementation; the
  model takes the result of amd64, the smallest \<open>int64\<close>.
\<close>

definition float_to_int64 :: "real \<Rightarrow> int" where
  "float_to_int64 x =
     (let t = float_to_int x in
      if - 9223372036854775808 \<le> t \<and> t < 9223372036854775808 then t
      else - 9223372036854775808)"

section \<open>The library functions the package calls (unicode/utf8, bytes, strings, html)\<close>

text \<open>
  These are functions of the Go standard library, not of the repository. They are
  modelled after the library: \<open>utf8.DecodeRune\<close> with its table \<open>first\<close> of lead bytes
  (size of the encoding and the accepted range of the second byte),
  \<open>utf8.DecodeLastRune\<close>, \<open>utf8.Valid\<close>, the decoding of \<open>for _, r := range s\<close>,
  \<open>utf8.AppendRune\<close> (which \<open>strings.Builder.WriteRune\<close> calls), \<open>unicode.IsSpace\<close>,
  \<open>bytes.TrimSpace\<close> and \<open>html.EscapeString\<close>. Bit masks and shifts are written as
  \<open>mod\<close> and multiplication.
\<close>

definition RuneError :: nat where
  "RuneError = 0xFFFD"

definition first :: "nat \<Rightarrow> (nat \<times> nat \<times> nat) option" where
  "first b =
     (if 0xC2 \<le> b \<and> b \<le> 0xDF then Some (2, 0x80, 0xBF)
      else if b = 0xE0 then Some (3, 0xA0, 0xBF)
      else if 0xE1 \<le> b \<and> b \<le> 0xEC then Some (3, 0x80, 0xBF)
      else if b = 0xED then Some (3, 0x80, 0x9F)
      else if 0xEE \<le> b \<and> b \<le> 0xEF then Some (3, 0x80, 0xBF)
      else if b = 0xF0 then Some (4, 0x90, 0xBF)
      else if 0xF1 \<le> b \<and> b \<le> 0xF3 then Some (4, 0x80, 0xBF)
      else if b = 0xF4 then Some (4, 0x80, 0x8F)
      else None)"

definition DecodeRune :: "string \<Rightarrow> nat \<times> nat" where
  "DecodeRune p =
     (if length p < 1 then (RuneError, 0)
      else let p0 = byte (p ! 0) in
      if p0 < 0x80 then (p0, 1)
      else case first p0 of
        None \<Rightarrow> (RuneError, 1)
      | Some (sz, lo, hi) \<Rightarrow>
          if length p < sz then (RuneError, 1)
          else let b1 = byte (p ! 1) in
          if b1 < lo \<or> hi < b1 then (RuneError, 1)
          else if sz \<le> 2 then ((p0 mod 32) * 64 + b1 mod 64, 2)
          else let b2 = byte (p ! 2) in
          if b2 < 0x80 \<or> 0xBF < b2 then (RuneError, 1)
          else if sz \<le> 3 then ((p0 mod 16) * 4096 + (b1 mod 64) * 64 + b2 mod 64, 3)
          else let b3 = byte (p ! 3) in
          if b3 < 0x80 \<or> 0xBF < b3 then (RuneError, 1)
          else ((p0 mod 8) * 262144 + (b1 mod 64) * 4096 + (b2 mod 64) * 64 + b3 mod 64, 4))"

text \<open>A continuation byte is \<open>10xxxxxx\<close>; \<open>utf8.RuneStart\<close> is its negation.\<close>

definition is_cont :: "char \<Rightarrow> bool" where
  "is_cont c = (0x80 \<le> byte c \<and> byte c \<le> 0xBF)"

definition RuneStart :: "char \<Rightarrow> bool" where
  "RuneStart c = (\<not> is_cont c)"

text \<open>
  \<open>utf8.DecodeLastRune\<close>: an ASCII last byte is a rune; else the loop walks back at most
  three bytes to a rune start (\<open>lim - 1\<close>, cut at 0, when there is none) and decodes from
  there; the rune counts only if it ends where the slice ends.
\<close>

definition DecodeLastRune :: "string \<Rightarrow> nat \<times> nat" where
  "DecodeLastRune p =
     (let end = length p in
      if end = 0 then (RuneError, 0)
      else let r = byte (p ! (end - 1)) in
      if r < 0x80 then (r, 1)
      else let lim = end - 4;
               start = (case find (\<lambda>s. RuneStart (p ! s)) (rev [lim ..< end - 1]) of
                          Some s \<Rightarrow> s | None \<Rightarrow> lim - 1)
      in case DecodeRune (drop start p) of (r, n) \<Rightarrow>
           if start + n \<noteq> end then (RuneError, 1) else (r, n))"

text \<open>\<open>utf8.Valid\<close>: every decoding step succeeds (a failed step is \<open>(RuneError, 1)\<close>).\<close>

function Valid :: "string \<Rightarrow> bool" where
  "Valid p =
     (if p = [] then True
      else case DecodeRune p of (r, n) \<Rightarrow>
        if r = RuneError \<and> n = 1 then False else Valid (drop n p))"
  by pat_completeness auto
termination
  apply (relation "measure length")
   apply simp
  apply (auto simp: DecodeRune_def Let_def split: if_splits option.splits prod.splits)
  done

declare Valid.simps [simp del]

text \<open>The runes of \<open>for _, r := range s\<close>: an invalid byte reads as \<open>RuneError\<close>, width 1.\<close>

function runes :: "string \<Rightarrow> nat list" where
  "runes p =
     (if p = [] then []
      else case DecodeRune p of (r, n) \<Rightarrow> r # runes (drop n p))"
  by pat_completeness auto
termination
  apply (relation "measure length")
   apply simp
  apply (auto simp: DecodeRune_def Let_def split: if_splits option.splits prod.splits)
  done

declare runes.simps [simp del]

definition enc3 :: "nat \<Rightarrow> string" where
  "enc3 r = [char_of (0xE0 + r div 4096), char_of (0x80 + (r div 64) mod 64), char_of (0x80 + r mod 64)]"

text \<open>\<open>utf8.AppendRune\<close>: surrogates and values past \<open>MaxRune\<close> are written as \<open>RuneError\<close>.\<close>

definition EncodeRune :: "nat \<Rightarrow> string" where
  "EncodeRune r =
     (if r \<le> 0x7F then [char_of r]
      else if r \<le> 0x7FF then [char_of (0xC0 + r div 64), char_of (0x80 + r mod 64)]
      else if r > 0x10FFFF \<or> (0xD800 \<le> r \<and> r \<le> 0xDFFF) then enc3 RuneError
      else if r \<le> 0xFFFF then enc3 r
      else [char_of (0xF0 + r div 262144), char_of (0x80 + (r div 4096) mod 64),
            char_of (0x80 + (r div 64) mod 64), char_of (0x80 + r mod 64)])"

definition IsSpace :: "nat \<Rightarrow> bool" where
  "IsSpace r =
     (if r \<le> 0xFF
      then r = 0x09 \<or> r = 0x0A \<or> r = 0x0B \<or> r = 0x0C \<or> r = 0x0D \<or> r = 0x20 \<or> r = 0x85 \<or> r = 0xA0
      else r = 0x1680 \<or> (0x2000 \<le> r \<and> r \<le> 0x200A) \<or> r = 0x2028 \<or> r = 0x2029
           \<or> r = 0x202F \<or> r = 0x205F \<or> r = 0x3000)"

text \<open>
  \<open>bytes.TrimSpace\<close> and \<open>strings.TrimSpace\<close> cut the leading and the trailing runes that
  are white space by \<open>unicode.IsSpace\<close>.
\<close>

function TrimLeftSpace :: "string \<Rightarrow> string" where
  "TrimLeftSpace p =
     (if p = [] then []
      else case DecodeRune p of (r, n) \<Rightarrow>
        if IsSpace r then TrimLeftSpace (drop n p) else p)"
  by pat_completeness auto
termination
  apply (relation "measure length")
   apply simp
  apply (auto simp: DecodeRune_def Let_def split: if_splits option.splits prod.splits)
  done

declare TrimLeftSpace.simps [simp del]

function TrimRightSpace :: "string \<Rightarrow> string" where
  "TrimRightSpace p =
     (if p = [] then []
      else case DecodeLastRune p of (r, n) \<Rightarrow>
        if IsSpace r then TrimRightSpace (take (length p - n) p) else p)"
  by pat_completeness auto
termination
  apply (relation "measure length")
   apply simp
  subgoal premises a for p r n
  proof -
    have d: "DecodeLastRune p = (r, n)" using a by simp
    have "0 < n"
    proof (rule ccontr)
      assume "\<not> 0 < n"
      then have n0: "n = 0" by simp
      have "r \<noteq> RuneError" using a by (auto simp: IsSpace_def RuneError_def)
      moreover have "DecodeRune [] = (RuneError, 0)" by (simp add: DecodeRune_def)
      ultimately show False using d a(1) n0
        by (auto simp: DecodeLastRune_def Let_def find_None_iff
                 split: if_splits prod.splits option.splits dest: find_Some_iff[THEN iffD1])
    qed
    with a(1) show ?thesis by simp
  qed
  done

declare TrimRightSpace.simps [simp del]

definition TrimSpace :: "string \<Rightarrow> string" where
  "TrimSpace p = TrimRightSpace (TrimLeftSpace p)"

text \<open>\<open>strings.Contains\<close>, \<open>bytes.Contains\<close>.\<close>

fun Contains :: "string \<Rightarrow> string \<Rightarrow> bool" where
  "Contains [] sub = (sub = [])"
| "Contains (c # s) sub = (prefix sub (c # s) \<or> Contains s sub)"

text \<open>\<open>bytes.LastIndex\<close> for a separator of one byte; \<open>-1\<close> when it does not occur.\<close>

definition LastIndex :: "string \<Rightarrow> char \<Rightarrow> int" where
  "LastIndex s c =
     (if c \<in> set s then int (length s) - 1 - int (length (takeWhile (\<lambda>x. x \<noteq> c) (rev s)))
      else - 1)"

text \<open>\<open>html.EscapeString\<close> replaces the five bytes \<open>& ' < > "\<close>.\<close>

definition escape_byte :: "char \<Rightarrow> string" where
  "escape_byte c =
     (if c = CHR ''&'' then ''&amp;''
      else if c = CHR 0x27 then ''&#39;''
      else if c = CHR ''<'' then ''&lt;''
      else if c = CHR ''>'' then ''&gt;''
      else if c = CHR 0x22 then ''&#34;''
      else [c])"

text \<open>Decimal digits of a natural number, as \<open>%d\<close> prints them.\<close>

function digits :: "nat \<Rightarrow> string" where
  "digits n = (if n < 10 then [char_of (48 + n)] else digits (n div 10) @ [char_of (48 + n mod 10)])"
  by pat_completeness auto
termination
  by (relation "measure id") auto

declare digits.simps [simp del]

definition format_d :: "int \<Rightarrow> string" where
  "format_d i = (if i < 0 then CHR ''-'' # digits (nat (- i)) else digits (nat i))"

text \<open>\<open>%0wd\<close>: zeros fill up to the width, which counts the sign.\<close>

definition format_0d :: "nat \<Rightarrow> int \<Rightarrow> string" where
  "format_0d w i =
     (if i < 0 then CHR ''-'' # replicate (w - 1 - length (digits (nat (- i)))) CHR ''0'' @ digits (nat (- i))
      else replicate (w - length (digits (nat i))) CHR ''0'' @ digits (nat i))"

text \<open>
  \<open>%.0f\<close> prints the nearest integer, a tie going to the even one. (The \<open>-0\<close> that Go
  prints for a negative value that rounds to zero is printed as \<open>0\<close> here.)
\<close>

definition round_half_even :: "real \<Rightarrow> int" where
  "round_half_even x =
     (let f = \<lfloor>x\<rfloor>; d = x - of_int f in
      if d < 1 / 2 then f else if 1 / 2 < d then f + 1 else if even f then f else f + 1)"

definition format_f0 :: "real \<Rightarrow> string" where
  "format_f0 x = format_d (round_half_even x)"

section \<open>Text preparation and configuration (util.go)\<close>

definition RemoveIncompatibleCharacters :: "string \<Rightarrow> string" where
  "RemoveIncompatibleCharacters s =
     concat (map (\<lambda>code.
        if (0 \<le> code \<and> code \<le> 8) \<or> (11 \<le> code \<and> code \<le> 12) \<or> (14 \<le> code \<and> code \<le> 31)
        then [space] else EncodeRune code) (runes s))"

definition EscapeXML :: "string \<Rightarrow> string" where
  "EscapeXML s = concat (map escape_byte s)"

text \<open>
  The slice \<open>text[:limit]\<close> is \<open>take limit text\<close>; the source calls the function only with
  \<open>limit < len(text)\<close>, where the slice expression does not panic.
\<close>

definition findLastNewlineOrSpaceWithinLimit :: "string \<Rightarrow> nat \<Rightarrow> int" where
  "findLastNewlineOrSpaceWithinLimit text limit =
     (let splitAt = LastIndex (take limit text) newline in
      if splitAt < 0 then LastIndex (take limit text) space else splitAt)"

fun findSafe_loop :: "string \<Rightarrow> nat \<Rightarrow> nat" where
  "findSafe_loop textSegment 0 = 0"
| "findSafe_loop textSegment (Suc n) =
     (if Valid (take (Suc n) textSegment) then Suc n else findSafe_loop textSegment n)"

definition findSafeUTF8SplitPoint :: "string \<Rightarrow> int" where
  "findSafeUTF8SplitPoint textSegment = int (findSafe_loop textSegment (length textSegment))"

function adjustSplitPointForXMLEntity :: "string \<Rightarrow> int \<Rightarrow> int" where
  "adjustSplitPointForXMLEntity text splitAt =
     (if splitAt > 0 \<and> amp \<in> set (take (nat splitAt) text) then
        let ampIndex = LastIndex (take (nat splitAt) text) amp in
        if semicolon \<in> set (drop (nat ampIndex) (take (nat splitAt) text)) then splitAt
        else adjustSplitPointForXMLEntity text ampIndex
      else splitAt)"
  by pat_completeness auto
termination
  apply (relation "measure (\<lambda>(text, splitAt). nat splitAt)")
   apply simp
  apply (simp add: LastIndex_def min_def split: if_splits)
  done

declare adjustSplitPointForXMLEntity.simps [simp del]

text \<open>The loop of \<open>SplitTextByByteLength\<close>, with \<open>textBytes\<close> and \<open>result\<close> as its state.\<close>

function split_loop :: "string \<Rightarrow> nat \<Rightarrow> string list \<Rightarrow> string list" where
  "split_loop textBytes byteLength result =
     (if length textBytes > byteLength then
        let splitAt = findLastNewlineOrSpaceWithinLimit textBytes byteLength;
            splitAt = (if splitAt < 0 then findSafeUTF8SplitPoint (take byteLength textBytes)
                       else splitAt);
            splitAt = adjustSplitPointForXMLEntity textBytes splitAt;
            splitAt = (if splitAt \<le> 0 then 1 else splitAt);
            chunk = TrimSpace (take (nat splitAt) textBytes);
            result = (if length chunk > 0 then result @ [chunk] else result)
        in split_loop (drop (nat splitAt) textBytes) byteLength result
      else
        let remaining = TrimSpace textBytes in
        if length remaining > 0 then result @ [remaining] else result)"
  by pat_completeness auto
termination
  apply (relation "measure (\<lambda>(textBytes, byteLength, result). length textBytes)")
   apply simp
  apply (auto split: if_splits)
  done

declare split_loop.simps [simp del]

definition SplitTextByByteLength :: "string \<Rightarrow> int \<Rightarrow> string list" where
  "SplitTextByByteLength text byteLength =
     (if byteLength \<le> 0 then [] else split_loop text (nat byteLength) [])"

text \<open>
  The regular expressions of \<open>ValidateTTSConfig\<close>, as matchers. In Go's syntax \<open>.\<close> is any
  character but the newline, \<open>\d\<close> is an ASCII digit and \<open>$\<close> is the end of the text.
  \<open>^([a-z]{2,})-([A-Z]{2,})-(.+Neural)$\<close>: a lower-case run cannot hold a dash, so the
  first group is the longest lower-case prefix, and so is the second group for upper
  case; the match returns the three groups.
\<close>

definition is_lower :: "char \<Rightarrow> bool" where
  "is_lower c = (97 \<le> byte c \<and> byte c \<le> 122)"

definition is_upper :: "char \<Rightarrow> bool" where
  "is_upper c = (65 \<le> byte c \<and> byte c \<le> 90)"

definition is_digit :: "char \<Rightarrow> bool" where
  "is_digit c = (48 \<le> byte c \<and> byte c \<le> 57)"

definition voicePattern :: "string \<Rightarrow> (string \<times> string \<times> string) option" where
  "voicePattern v =
     (let lang = takeWhile is_lower v; r1 = dropWhile is_lower v in
      if length lang < 2 \<or> r1 = [] \<or> hd r1 \<noteq> CHR ''-'' then None
      else let region = takeWhile is_upper (tl r1); r2 = dropWhile is_upper (tl r1) in
      if length region < 2 \<or> r2 = [] \<or> hd r2 \<noteq> CHR ''-'' then None
      else let name = tl r2 in
      if 6 < length name \<and> suffix ''Neural'' name \<and> newline \<notin> set name
      then Some (lang, region, name) else None)"

text \<open>\<open>^Microsoft Server Speech Text to Speech Voice \(.+,.+\)$\<close>\<close>

definition voiceFullPattern :: "string \<Rightarrow> bool" where
  "voiceFullPattern v =
     (let pre = ''Microsoft Server Speech Text to Speech Voice (''; rest = drop (length pre) v in
      prefix pre v \<and> rest \<noteq> [] \<and> last rest = CHR '')'' \<and> newline \<notin> set (butlast rest)
      \<and> CHR '','' \<in> set (butlast (tl (butlast rest))))"

text \<open>\<open>^[+-]\d+%$\<close> and \<open>^[+-]\d+Hz$\<close>: a sign, digits, and the unit.\<close>

definition signed_number :: "string \<Rightarrow> string \<Rightarrow> bool" where
  "signed_number unit s =
     (case s of [] \<Rightarrow> False
      | c # rest \<Rightarrow> (c = CHR ''+'' \<or> c = CHR ''-'') \<and> suffix unit rest
          \<and> length unit < length rest
          \<and> list_all is_digit (take (length rest - length unit) rest))"

definition ratePattern :: "string \<Rightarrow> bool" where
  "ratePattern s = signed_number ''%'' s"

definition volumePattern :: "string \<Rightarrow> bool" where
  "volumePattern s = signed_number ''%'' s"

definition pitchPattern :: "string \<Rightarrow> bool" where
  "pitchPattern s = signed_number ''Hz'' s"

text \<open>
  \<open>ValidateTTSConfig\<close> writes the voice into the configuration it is given and returns an
  error or nil. The model returns the error (if any) and the configuration as the call
  leaves it.
\<close>

definition ValidateTTSConfig :: "TTSConfig \<Rightarrow> error option \<times> TTSConfig" where
  "ValidateTTSConfig tc =
     (let tc1 =
        (case voicePattern (Voice tc) of
           None \<Rightarrow> tc
         | Some (lang, region, name) \<Rightarrow>
             let (region, name) =
               (if CHR ''-'' \<in> set name
                then (region @ ''-'' @ takeWhile (\<lambda>c. c \<noteq> CHR ''-'') name,
                      tl (dropWhile (\<lambda>c. c \<noteq> CHR ''-'') name))
                else (region, name))
             in tc\<lparr>Voice := ''Microsoft Server Speech Text to Speech Voice ('' @ lang @ ''-''
                           @ region @ '', '' @ name @ '')''\<rparr>)
      in if \<not> voiceFullPattern (Voice tc1) then (Some ErrInvalidVoice, tc1)
         else if \<not> ratePattern (Rate tc1) then (Some ErrInvalidRate, tc1)
         else if \<not> volumePattern (Volume tc1) then (Some ErrInvalidVolume, tc1)
         else if \<not> pitchPattern (Pitch tc1) then (Some ErrInvalidPitch, tc1)
         else (None, tc1))"

section \<open>The corrected clock and the token (drm.go, constants.go)\<close>

definition TrustedClientToken :: string where
  "TrustedClientToken = ''6A5AA1D4EAFF4E9FB37E23D68491D6F4''"

definition WinEpoch :: real where
  "WinEpoch = 11644473600"

definition SToNS :: real where
  "SToNS = 1000000000"

definition AdjClockSkewSeconds :: "DRM \<Rightarrow> real \<Rightarrow> DRM" where
  "AdjClockSkewSeconds d skewSeconds = d\<lparr>clockSkewSeconds := clockSkewSeconds d + skewSeconds\<rparr>"

text \<open>\<open>now\<close> is \<open>time.Now().UTC().Unix()\<close>, the wall clock in whole seconds.\<close>

definition GetUnixTimestamp :: "DRM \<Rightarrow> int \<Rightarrow> real" where
  "GetUnixTimestamp d now = of_int now + clockSkewSeconds d"

text \<open>The string that \<open>GenerateSecMSGEC\<close> hashes.\<close>

definition strToHash :: "DRM \<Rightarrow> int \<Rightarrow> string" where
  "strToHash d now =
     (let ticks = GetUnixTimestamp d now;
          ticks = ticks + WinEpoch;
          ticks = ticks - of_int (go_mod (float_to_int ticks) 300);
          ticks = ticks * (SToNS / 100)
      in format_f0 ticks @ TrustedClientToken)"

definition hex_digit :: "nat \<Rightarrow> char" where
  "hex_digit n = (if n < 10 then char_of (48 + n) else char_of (87 + n))"

definition EncodeToString :: "string \<Rightarrow> string" where
  "EncodeToString s = concat (map (\<lambda>c. [hex_digit (byte c div 16), hex_digit (byte c mod 16)]) s)"

text \<open>\<open>strings.ToUpper\<close> on ASCII, which is all that a hexadecimal string holds.\<close>

definition ToUpper :: "string \<Rightarrow> string" where
  "ToUpper s = map (\<lambda>c. if is_lower c then char_of (byte c - 32) else c) s"

text \<open>
  \<open>sha256.Sum256\<close> is a parameter of the model: a function from byte strings to the 32
  bytes of the digest.
\<close>

definition GenerateSecMSGEC :: "(string \<Rightarrow> string) \<Rightarrow> DRM \<Rightarrow> int \<Rightarrow> string" where
  "GenerateSecMSGEC sha256 d now = ToUpper (EncodeToString (sha256 (strToHash d now)))"

section \<open>SRT rendering (srt.go)\<close>

text \<open>\<open>strings.Trim(content, "\n")\<close>: all leading and trailing newlines are cut.\<close>

definition Trim_newlines :: "string \<Rightarrow> string" where
  "Trim_newlines s =
     rev (dropWhile (\<lambda>c. c = newline) (rev (dropWhile (\<lambda>c. c = newline) s)))"

text \<open>
  \<open>multiWSRegex.ReplaceAllString(content, "\n")\<close> with the pattern \<open>\n\n+\<close>: every maximal
  run of two or more newlines becomes one newline.
\<close>

fun collapse_newlines :: "string \<Rightarrow> string" where
  "collapse_newlines [] = []"
| "collapse_newlines [c] = [c]"
| "collapse_newlines (c # d # s) =
     (if c = newline \<and> d = newline then collapse_newlines (d # s)
      else c # collapse_newlines (d # s))"

definition makeLegalContent :: "string \<Rightarrow> string" where
  "makeLegalContent content =
     (if content \<noteq> [] \<and> hd content \<noteq> newline \<and> \<not> Contains content [newline, newline]
      then content
      else collapse_newlines (Trim_newlines content))"

text \<open>
  \<open>d.Seconds()\<close> is the duration as a \<open>float64\<close> of seconds, \<open>d.Milliseconds()\<close> the
  integer quotient by a million.
\<close>

definition timeDurationToSRTTimestamp :: "int \<Rightarrow> string" where
  "timeDurationToSRTTimestamp d =
     (let totalSeconds = float_to_int (of_int d / 1000000000);
          hours = go_div totalSeconds 3600;
          minutes = go_div (go_mod totalSeconds 3600) 60;
          seconds = go_mod totalSeconds 60;
          milliseconds = go_mod (go_div d 1000000) 1000
      in format_0d 2 hours @ '':'' @ format_0d 2 minutes @ '':'' @ format_0d 2 seconds
           @ '','' @ format_0d 3 milliseconds)"

text \<open>\<open>strings.ReplaceAll(content, "\n", eol)\<close>\<close>

definition replace_newlines :: "string \<Rightarrow> string \<Rightarrow> string" where
  "replace_newlines content eol = concat (map (\<lambda>c. if c = newline then eol else [c]) content)"

definition ToSRT :: "Subtitle \<Rightarrow> string \<Rightarrow> string" where
  "ToSRT s eol0 =
     (let eol = (if eol0 = [] then [newline] else eol0);
          content = makeLegalContent (Content s);
          content = (if eol \<noteq> [newline] then replace_newlines content eol else content);
          idx = Index s
      in format_d idx @ eol @ timeDurationToSRTTimestamp (Start s) @ '' --> ''
           @ timeDurationToSRTTimestamp (End s) @ eol @ content @ eol @ eol)"

text \<open>
  The comparison that \<open>sortAndReindex\<close> gives to \<open>sort.Slice\<close>. The sort of the library is
  not stable; the model sorts by insertion and keeps the order of cues that agree on all
  three fields.
\<close>

definition subtitle_less :: "Subtitle \<Rightarrow> Subtitle \<Rightarrow> bool" where
  "subtitle_less a b =
     (if Start a \<noteq> Start b then Start a < Start b
      else if End a \<noteq> End b then End a < End b
      else Index a < Index b)"

fun insert_subtitle :: "Subtitle \<Rightarrow> Subtitle list \<Rightarrow> Subtitle list" where
  "insert_subtitle x [] = [x]"
| "insert_subtitle x (y # ys) =
     (if subtitle_less y x then y # insert_subtitle x ys else x # y # ys)"

definition sort_subtitles :: "Subtitle list \<Rightarrow> Subtitle list" where
  "sort_subtitles subs = foldr insert_subtitle subs []"

text \<open>The loop of \<open>sortAndReindex\<close> over the sorted cues, with \<open>idx\<close> and \<open>skipped\<close>.\<close>

fun reindex_loop :: "bool \<Rightarrow> int \<Rightarrow> int \<Rightarrow> Subtitle list \<Rightarrow> Subtitle list" where
  "reindex_loop skip idx skipped [] = []"
| "reindex_loop skip idx skipped (sub # subs) =
     (if skip \<and> (TrimSpace (Content sub) = [] \<or> Start sub < 0 \<or> Start sub \<ge> End sub)
      then reindex_loop skip idx (skipped + 1) subs
      else \<lparr>Index = idx - skipped, Start = Start sub, End = End sub, Content = Content sub\<rparr>
             # reindex_loop skip (idx + 1) skipped subs)"

definition sortAndReindex :: "Subtitle list \<Rightarrow> int \<Rightarrow> bool \<Rightarrow> Subtitle list" where
  "sortAndReindex subtitles startIndex skip = reindex_loop skip startIndex 0 (sort_subtitles subtitles)"

definition ComposeSRT :: "Subtitle list \<Rightarrow> bool \<Rightarrow> int \<Rightarrow> string \<Rightarrow> string" where
  "ComposeSRT subtitles reindex startIndex eol =
     (let subtitles = (if reindex then sortAndReindex subtitles startIndex True else subtitles)
      in concat (map (\<lambda>sub. ToSRT sub eol) subtitles))"

section \<open>The subtitle assembler (submaker.go)\<close>

definition NewSubMaker :: SubMaker where
  "NewSubMaker = \<lparr>Cues = [], CueType = ''''\<rparr>"

text \<open>
  \<open>Feed\<close> changes the receiver in place and returns an error or nil. The model returns
  the error (if any) together with the receiver as the call leaves it. The two
  quotients are converted to \<open>time.Duration\<close>, an \<open>int64\<close> of nanoseconds, and the
  product with \<open>time.Microsecond\<close> is taken in \<open>int64\<close>. The \<open>float64\<close> sum and quotient
  are written as the exact ones: for offsets and durations that are whole numbers of
  ticks with a sum below \<open>2^53\<close> the sum is exact in \<open>float64\<close>, and the rounded quotient
  by 10 has the same whole part as the exact one.
\<close>

datatype feed_error =
    InvalidMessageType string
  | UnexpectedMessageType string string

definition Feed :: "SubMaker \<Rightarrow> TTSChunk \<Rightarrow> feed_error option \<times> SubMaker" where
  "Feed sm msg =
    (if Type msg \<noteq> ''WordBoundary'' \<and> Type msg \<noteq> ''SentenceBoundary''
     then (Some (InvalidMessageType (Type msg)), sm)
     else if CueType sm \<noteq> '''' \<and> CueType sm \<noteq> Type msg
     then (Some (UnexpectedMessageType (CueType sm) (Type msg)), sm)
     else
       let sm1 = (if CueType sm = '''' then sm\<lparr>CueType := Type msg\<rparr> else sm);
           startMicros = Offset msg / 10;
           endMicros = (Offset msg + Duration msg) / 10;
           subtitle = \<lparr>Index = int (length (Cues sm1)) + 1,
                       Start = wrap64 (float_to_int64 startMicros * Microsecond),
                       End = wrap64 (float_to_int64 endMicros * Microsecond),
                       Content = Text msg\<rparr>
       in (None, sm1\<lparr>Cues := Cues sm1 @ [subtitle]\<rparr>))"

definition GetSRT :: "SubMaker \<Rightarrow> string" where
  "GetSRT sm = ComposeSRT (Cues sm) True 1 ''''"

section \<open>The session engine and the stream aggregator (communicate.go)\<close>

definition DefaultVoice :: string where
  "DefaultVoice = ''en-US-EmmaMultilingualNeural''"

text \<open>
  \<open>NewCommunicate\<close>; an option is a function on the instance. It fails with the error of
  \<open>ValidateTTSConfig\<close>.
\<close>

definition NewCommunicate ::
  "string \<Rightarrow> string \<Rightarrow> (Communicate \<Rightarrow> Communicate) list \<Rightarrow> error + Communicate" where
  "NewCommunicate text0 voice0 opts =
     (let voice = (if voice0 = [] then DefaultVoice else voice0);
          c = \<lparr>ttsConfig = \<lparr>Voice = voice, Rate = ''+0%'', Volume = ''+0%'', Pitch = ''+0Hz'',
                             Boundary = ''SentenceBoundary''\<rparr>,
               texts = [],
               state = \<lparr>PartialText = [], OffsetCompensation = 0, LastDurationOffset = 0,
                         StreamWasCalled = False\<rparr>\<rparr>;
          c = foldl (\<lambda>c opt. opt c) c opts
      in case ValidateTTSConfig (ttsConfig c) of
           (Some err, tc) \<Rightarrow> Inl err
         | (None, tc) \<Rightarrow>
             let cleanText = RemoveIncompatibleCharacters text0;
                 escapedText = EscapeXML cleanText
             in Inr (c\<lparr>ttsConfig := tc, texts := SplitTextByByteLength escapedText 4096\<rparr>))"

text \<open>
  \<open>parseMetadata\<close> on the decoded body: \<open>None\<close> stands for a body that \<open>json.Unmarshal\<close>
  rejects. \<open>html.UnescapeString\<close> is the parameter \<open>unescape\<close>.
\<close>

fun parseMetadata_loop :: "(string \<Rightarrow> string) \<Rightarrow> CommunicateState \<Rightarrow> Metadata list \<Rightarrow> error + TTSChunk" where
  "parseMetadata_loop unescape st [] = Inl ErrUnexpectedResponse"
| "parseMetadata_loop unescape st (meta # rest) =
     (if Meta_Type meta = ''WordBoundary'' \<or> Meta_Type meta = ''SentenceBoundary''
      then let currentOffset = Data_Offset meta + OffsetCompensation st in
        Inr \<lparr>Type = Meta_Type meta, Data = [], Duration = Data_Duration meta,
             Offset = currentOffset, Text = unescape (Data_Text_Text meta)\<rparr>
      else if Meta_Type meta = ''SessionEnd'' then parseMetadata_loop unescape st rest
      else Inl ErrUnknownResponse)"

definition parseMetadata ::
  "(string \<Rightarrow> string) \<Rightarrow> CommunicateState \<Rightarrow> Metadata list option \<Rightarrow> error + TTSChunk" where
  "parseMetadata unescape st data =
     (case data of None \<Rightarrow> Inl ErrJSON | Some metas \<Rightarrow> parseMetadata_loop unescape st metas)"

text \<open>
  What one call of \<open>conn.ReadMessage\<close> (after the check of \<open>ctx.Done()\<close>) brings, with the
  frame already cut into what the loop looks at:
  \<^item> \<open>ContextDone\<close>: the context is cancelled before the read;
  \<^item> \<open>ReadFailed\<close>: a read error other than a normal closure (the receive deadline too);
  \<^item> \<open>CloseNormal\<close>: the peer closed the connection normally;
  \<^item> \<open>TextNoHeader\<close>: a text frame without the blank line that ends the headers;
  \<^item> \<open>TextMessage path body\<close>: a text frame, its \<open>Path\<close> header and its decoded body;
  \<^item> \<open>BinaryMessage n headerLength path contentType body\<close>: a binary frame of \<open>n\<close> bytes,
    the length its first two bytes announce, its \<open>Path\<close> and \<open>Content-Type\<close> headers (empty
    when absent) and its body.
\<close>

datatype incoming =
    ContextDone
  | ReadFailed
  | CloseNormal
  | TextNoHeader
  | TextMessage string "Metadata list option"
  | BinaryMessage nat nat string string string

type_synonym outcome = "TTSChunk list \<times> error option \<times> CommunicateState"

definition emit :: "TTSChunk \<Rightarrow> outcome \<Rightarrow> outcome" where
  "emit chunk r = (case r of (chunks, err, st) \<Rightarrow> (chunk # chunks, err, st))"

text \<open>The code after the label \<open>done\<close>.\<close>

definition done_stream :: "CommunicateState \<Rightarrow> bool \<Rightarrow> outcome" where
  "done_stream st audioReceived = ([], (if audioReceived then None else Some ErrNoAudioReceived), st)"

text \<open>
  The read loop of \<open>stream\<close> over what the connection brings; a connection that brings
  nothing more fails the read. The result is what was sent on \<open>chunkCh\<close>, what was sent on
  \<open>errCh\<close>, and the state.
\<close>

fun receive_loop ::
  "(string \<Rightarrow> string) \<Rightarrow> CommunicateState \<Rightarrow> bool \<Rightarrow> incoming list \<Rightarrow> outcome" where
  "receive_loop unescape st audioReceived [] = ([], Some ErrRead, st)"
| "receive_loop unescape st audioReceived (ContextDone # ms) = ([], Some ErrContext, st)"
| "receive_loop unescape st audioReceived (ReadFailed # ms) = ([], Some ErrRead, st)"
| "receive_loop unescape st audioReceived (CloseNormal # ms) = done_stream st audioReceived"
| "receive_loop unescape st audioReceived (TextNoHeader # ms) =
     receive_loop unescape st audioReceived ms"
| "receive_loop unescape st audioReceived (TextMessage path body # ms) =
     (if path = ''audio.metadata'' then
        (case parseMetadata unescape st body of
           Inl err \<Rightarrow> ([], Some err, st)
         | Inr parsed \<Rightarrow>
             emit parsed
               (receive_loop unescape (st\<lparr>LastDurationOffset := Offset parsed + Duration parsed\<rparr>)
                  audioReceived ms))
      else if path = ''turn.end'' then
        done_stream (st\<lparr>OffsetCompensation := LastDurationOffset st + 8750000\<rparr>) audioReceived
      else if path = ''response'' \<or> path = ''turn.start'' then
        receive_loop unescape st audioReceived ms
      else ([], Some ErrUnknownResponse, st))"
| "receive_loop unescape st audioReceived (BinaryMessage n headerLength path contentType body # ms) =
     (if n < 2 then ([], Some ErrUnexpectedResponse, st)
      else if headerLength + 2 > n then ([], Some ErrUnexpectedResponse, st)
      else if path \<noteq> ''audio'' then ([], Some ErrUnexpectedResponse, st)
      else if contentType \<noteq> ''audio/mpeg'' \<and> contentType \<noteq> '''' then ([], Some ErrUnexpectedResponse, st)
      else if contentType = '''' then
        (if length body = 0 then receive_loop unescape st audioReceived ms
         else ([], Some ErrUnexpectedResponse, st))
      else if length body = 0 then ([], Some ErrUnexpectedResponse, st)
      else emit \<lparr>Type = ''audio'', Data = body, Duration = 0, Offset = 0, Text = ''''\<rparr>
             (receive_loop unescape st True ms))"

text \<open>
  One connection, as the network plays it: whether the dial and the two writes succeed,
  what the reads bring, and how the outer \<open>select\<close> of \<open>Stream\<close> is scheduled:
  \<^item> \<open>forwarded\<close>: for a session that fails, how many of its chunks the outer \<open>select\<close>
    forwards before it takes the error from the inner error channel;
  \<^item> \<open>cancelled\<close>: \<open>Some k\<close> when the context is cancelled while the outer \<open>select\<close>
    forwards the chunks of this session and it takes \<open>ctx.Done()\<close> after \<open>k\<close> chunks.
\<close>

record session =
  dial_ok :: bool
  write_config_ok :: bool
  write_ssml_ok :: bool
  reads :: "incoming list"
  forwarded :: nat
  cancelled :: "nat option"

definition stream :: "(string \<Rightarrow> string) \<Rightarrow> CommunicateState \<Rightarrow> session \<Rightarrow> outcome" where
  "stream unescape st conn =
     (if \<not> dial_ok conn then ([], Some ErrDial, st)
      else if \<not> write_config_ok conn then ([], Some ErrWrite, st)
      else if \<not> write_ssml_ok conn then ([], Some ErrWrite, st)
      else receive_loop unescape st False (reads conn))"

text \<open>
  The loop of \<open>Stream\<close> over \<open>c.texts\<close>; \<open>net i\<close> is the connection of the \<open>i\<close>-th chunk
  of text. The goroutines are run one after the other: the inner session runs to its
  end, then its chunks are forwarded. The outer \<open>select\<close> ends a round in one of three
  ways: it takes \<open>ctx.Done()\<close> and sends \<open>ctx.Err()\<close>; it takes the error of the inner
  session (from the \<open>select\<close> or from the check after the loop) and sends it; or the
  inner chunk channel is closed with no error, all chunks are forwarded, and the loop
  goes on to the next text.
\<close>

fun Stream_loop ::
  "(string \<Rightarrow> string) \<Rightarrow> (nat \<Rightarrow> session) \<Rightarrow> nat \<Rightarrow> CommunicateState \<Rightarrow> string list \<Rightarrow> outcome" where
  "Stream_loop unescape net i st [] = ([], None, st)"
| "Stream_loop unescape net i st (text0 # rest) =
     (case stream unescape (st\<lparr>PartialText := text0\<rparr>) (net i) of
        (chunks, err, st1) \<Rightarrow>
          (case cancelled (net i) of
             Some k \<Rightarrow> (take k chunks, Some ErrContext, st1)
           | None \<Rightarrow>
               (case err of
                  Some e \<Rightarrow> (take (forwarded (net i)) chunks, Some e, st1)
                | None \<Rightarrow>
                    (case Stream_loop unescape net (Suc i) st1 rest of
                       (later, err2, st2) \<Rightarrow> (chunks @ later, err2, st2)))))"

text \<open>\<open>Stream\<close>: the chunks sent, the error sent (if any), and the instance afterwards.\<close>

definition Stream ::
  "(string \<Rightarrow> string) \<Rightarrow> Communicate \<Rightarrow> (nat \<Rightarrow> session) \<Rightarrow> TTSChunk list \<times> error option \<times> Communicate" where
  "Stream unescape c net =
     (if StreamWasCalled (state c) then ([], Some ErrStreamAlreadyCalled, c)
      else case Stream_loop unescape net 0 ((state c)\<lparr>StreamWasCalled := True\<rparr>) (texts c) of
             (chunks, err, st) \<Rightarrow> (chunks, err, c\<lparr>state := st\<rparr>))"

text \<open>
  Two calls of \<open>Stream\<close> on one instance. \<open>Stream\<close> itself only makes the channels and
  starts a goroutine; it is the goroutine that reads \<open>c.state.StreamWasCalled\<close>, then
  writes it, then runs the loop over the texts, and no lock or channel orders the steps
  of the goroutines of two calls. A schedule names, step by step, the goroutine that
  moves next. The steps of a goroutine are: the test of the flag (which ends the call
  with \<open>ErrStreamAlreadyCalled\<close> when the flag is set), the assignment of the flag, and the
  loop over the texts, taken here as one step on the shared state. \<open>Stream\<close> above is
  the three steps of one goroutine in a row.
\<close>

datatype caller = First | Second

datatype stage = Started | Tested | Marked | Finished

record call =
  stage_of :: stage
  sent :: "TTSChunk list"
  failed :: "error option"

record world =
  shared :: Communicate
  calls :: "caller \<Rightarrow> call"

definition goroutine_step ::
  "(string \<Rightarrow> string) \<Rightarrow> (caller \<Rightarrow> nat \<Rightarrow> session) \<Rightarrow> world \<Rightarrow> caller \<Rightarrow> world" where
  "goroutine_step unescape net w g =
     (case stage_of (calls w g) of
        Started \<Rightarrow>
          if StreamWasCalled (state (shared w))
          then w\<lparr>calls := (calls w)(g := \<lparr>stage_of = Finished, sent = [],
                                             failed = Some ErrStreamAlreadyCalled\<rparr>)\<rparr>
          else w\<lparr>calls := (calls w)(g := (calls w g)\<lparr>stage_of := Tested\<rparr>)\<rparr>
      | Tested \<Rightarrow>
          w\<lparr>shared := (shared w)\<lparr>state := (state (shared w))\<lparr>StreamWasCalled := True\<rparr>\<rparr>,
            calls := (calls w)(g := (calls w g)\<lparr>stage_of := Marked\<rparr>)\<rparr>
      | Marked \<Rightarrow>
          (case Stream_loop unescape (net g) 0 (state (shared w)) (texts (shared w)) of
             (chunks, err, st) \<Rightarrow>
               w\<lparr>shared := (shared w)\<lparr>state := st\<rparr>,
                 calls := (calls w)(g := \<lparr>stage_of = Finished, sent = chunks, failed = err\<rparr>)\<rparr>)
      | Finished \<Rightarrow> w)"

definition start_world :: "Communicate \<Rightarrow> world" where
  "start_world c = \<lparr>shared = c, calls = (\<lambda>g. \<lparr>stage_of = Started, sent = [], failed = None\<rparr>)\<rparr>"

definition run_schedule ::
  "(string \<Rightarrow> string) \<Rightarrow> (caller \<Rightarrow> nat \<Rightarrow> session) \<Rightarrow> caller list \<Rightarrow> world \<Rightarrow> world" where
  "run_schedule unescape net sched w = foldl (goroutine_step unescape net) w sched"

section \<open>Predicates of the properties\<close>

text \<open>A byte string that holds white-space characters only.\<close>

definition all_space :: "string \<Rightarrow> bool" where
  "all_space w = (TrimLeftSpace w = [])"

text \<open>
  What follows the \<open>&\<close> in the five entities that \<open>html.EscapeString\<close> writes, and the
  strings in which every \<open>&\<close> starts one of these entities, whole.
\<close>

definition entity_tails :: "string list" where
  "entity_tails = [''amp;'', ''#39;'', ''lt;'', ''gt;'', ''#34;'']"

fun entities_whole :: "string \<Rightarrow> bool" where
  "entities_whole [] = True"
| "entities_whole (c # cs) =
     ((if c = amp then list_ex (\<lambda>t. prefix t cs) entity_tails else True) \<and> entities_whole cs)"

text \<open>Every \<open>&\<close> is followed, somewhere in the string, by a \<open>;\<close>.\<close>

fun amps_closed :: "string \<Rightarrow> bool" where
  "amps_closed [] = True"
| "amps_closed (c # cs) = ((if c = amp then semicolon \<in> set cs else True) \<and> amps_closed cs)"

text \<open>\<open>interleave [w0, w1, ..., wn] [c1, ..., cn] = w0 @ c1 @ w1 @ ... @ cn @ wn\<close>\<close>

fun interleave :: "string list \<Rightarrow> string list \<Rightarrow> string" where
  "interleave (w # ws) (c # cs) = w @ c @ interleave ws cs"
| "interleave ws [] = concat ws"
| "interleave [] cs = concat cs"

text \<open>
  The cleaned form of a UTF-8 string, in the specification's words: every code point in
  the ranges U+0000 to U+0008, U+000B to U+000C and U+000E to U+001F becomes a space,
  every other code point stays. In UTF-8 these code points are the single bytes of
  those values, and no byte of another code point has such a value. (These definitions
  follow the specification, not the code.)
\<close>

definition control_code :: "nat \<Rightarrow> bool" where
  "control_code n = (n \<le> 8 \<or> (11 \<le> n \<and> n \<le> 12) \<or> (14 \<le> n \<and> n \<le> 31))"

definition cleaned_form :: "string \<Rightarrow> string" where
  "cleaned_form s = map (\<lambda>c. if control_code (byte c) then space else c) s"

text \<open>
  What an XML-escaped text stands for: each reference to one of the five characters
  \<open>& < > " '\<close>, by name or by number, is replaced by the character. An escaped text
  holds none of \<open>< > " '\<close> itself, and each of its \<open>&\<close> starts a reference. (These
  definitions say what escaping means; they are not taken from the code.)
\<close>

fun resolve_entities :: "string \<Rightarrow> string" where
  "resolve_entities [] = []"
| "resolve_entities (c # cs) =
     (if c = amp \<and> prefix ''amp;'' cs then amp # resolve_entities (drop 4 cs)
      else if c = amp \<and> prefix ''lt;'' cs then CHR ''<'' # resolve_entities (drop 3 cs)
      else if c = amp \<and> prefix ''gt;'' cs then CHR ''>'' # resolve_entities (drop 3 cs)
      else if c = amp \<and> prefix ''#34;'' cs then CHR 0x22 # resolve_entities (drop 4 cs)
      else if c = amp \<and> prefix ''quot;'' cs then CHR 0x22 # resolve_entities (drop 5 cs)
      else if c = amp \<and> prefix ''#39;'' cs then CHR 0x27 # resolve_entities (drop 4 cs)
      else if c = amp \<and> prefix ''apos;'' cs then CHR 0x27 # resolve_entities (drop 5 cs)
      else c # resolve_entities cs)"

definition escaped_text :: "string \<Rightarrow> bool" where
  "escaped_text e =
     (entities_whole e
      \<and> list_all (\<lambda>c. c \<noteq> CHR ''<'' \<and> c \<noteq> CHR ''>'' \<and> c \<noteq> CHR 0x22 \<and> c \<noteq> CHR 0x27) e)"

text \<open>
  A string as \<open>for _, r := range s\<close> reads it and \<open>WriteRune\<close> writes it back: a byte that
  is not part of a valid encoding reads as U+FFFD. A UTF-8 string reads as itself.
\<close>

definition range_read :: "string \<Rightarrow> string" where
  "range_read s = concat (map EncodeRune (runes s))"

text \<open>The chunks of a stream that are boundary events, and their offsets.\<close>

definition boundary_type :: "string \<Rightarrow> bool" where
  "boundary_type t = (t = ''WordBoundary'' \<or> t = ''SentenceBoundary'')"

definition boundary_offsets :: "TTSChunk list \<Rightarrow> real list" where
  "boundary_offsets chunks = map Offset (filter (\<lambda>c. boundary_type (Type c)) chunks)"

text \<open>
  The metadata entries that a connection brings, in order, and what the corrected claim
  on offsets asks of a connection: offsets and durations are not negative, the offsets
  of the boundary entries do not decrease, and the connection is not closed before
  \<open>turn.end\<close>.
\<close>

fun entries_of :: "incoming \<Rightarrow> Metadata list" where
  "entries_of (TextMessage path (Some metas)) = (if path = ''audio.metadata'' then metas else [])"
| "entries_of m = []"

definition session_entries :: "session \<Rightarrow> Metadata list" where
  "session_entries conn = concat (map entries_of (reads conn))"

definition well_behaved :: "session \<Rightarrow> bool" where
  "well_behaved conn =
     (list_all (\<lambda>m. 0 \<le> Data_Offset m \<and> 0 \<le> Data_Duration m) (session_entries conn)
      \<and> sorted (map Data_Offset (filter (\<lambda>m. boundary_type (Meta_Type m)) (session_entries conn)))
      \<and> CloseNormal \<notin> set (reads conn))"

text \<open>Feeding a sequence of messages to the assembler, and the kind of the first one it accepts.\<close>

fun FeedAll :: "SubMaker \<Rightarrow> TTSChunk list \<Rightarrow> SubMaker" where
  "FeedAll sm [] = sm"
| "FeedAll sm (msg # msgs) = FeedAll (snd (Feed sm msg)) msgs"

definition first_kind :: "TTSChunk list \<Rightarrow> string option" where
  "first_kind msgs = map_option Type (find (\<lambda>m. boundary_type (Type m)) msgs)"

text \<open>
  The offsets and durations on which the arithmetic of \<open>Feed\<close> is exact: whole numbers of
  ticks whose sum is below \<open>2^53\<close> (more than 28 years of audio).
\<close>

definition whole_ticks :: "TTSChunk \<Rightarrow> bool" where
  "whole_ticks msg =
     (Offset msg \<in> \<nat> \<and> Duration msg \<in> \<nat> \<and> Offset msg + Duration msg < 9007199254740992)"

text \<open>The short form of a voice: language, region and a name that ends in \<open>Neural\<close>.\<close>

definition short_form :: "string \<Rightarrow> string \<Rightarrow> string \<Rightarrow> bool" where
  "short_form lang region name =
     (2 \<le> length lang \<and> list_all is_lower lang \<and> 2 \<le> length region \<and> list_all is_upper region
      \<and> 6 < length name \<and> suffix ''Neural'' name \<and> newline \<notin> set name)"

definition long_form :: "string \<Rightarrow> string \<Rightarrow> string \<Rightarrow> string" where
  "long_form lang region name =
     ''Microsoft Server Speech Text to Speech Voice ('' @ lang @ ''-'' @ region @ '', '' @ name @ '')''"

text \<open>
  The region and the name of the long form: when the name holds a dash, the region takes
  what stands before the first dash of the name, and the name keeps what follows it.
\<close>

definition absorb :: "string \<Rightarrow> string \<Rightarrow> string \<times> string" where
  "absorb region name =
     (if CHR ''-'' \<in> set name
      then (region @ ''-'' @ takeWhile (\<lambda>c. c \<noteq> CHR ''-'') name,
            tl (dropWhile (\<lambda>c. c \<noteq> CHR ''-'') name))
      else (region, name))"

text \<open>
  The number that the specification says is hashed for the corrected time \<open>t\<close>, in the
  specification's words: the floor of \<open>(t + 11644473600) / 300\<close>, times 300, times ten
  million. (This definition follows the specification, not the code.)
\<close>

definition spec_ticks :: "real \<Rightarrow> int" where
  "spec_ticks t = \<lfloor>(t + 11644473600) / 300\<rfloor> * 300 * 10000000"

section \<open>Example inputs\<close>

text \<open>The state of a fresh instance, as \<open>NewCommunicate\<close> makes it.\<close>

definition st0 :: CommunicateState where
  "st0 = \<lparr>PartialText = [], OffsetCompensation = 0, LastDurationOffset = 0, StreamWasCalled = False\<rparr>"

text \<open>
  A metadata frame with one word boundary, an audio frame, the frame that ends a turn, a
  connection on which the dial and the writes succeed, and an instance whose text was
  split in two.
\<close>

definition word_frame :: "real \<Rightarrow> real \<Rightarrow> incoming" where
  "word_frame off dur =
     TextMessage ''audio.metadata''
       (Some [\<lparr>Meta_Type = ''WordBoundary'', Data_Offset = off, Data_Duration = dur,
               Data_Text_Text = ''hi''\<rparr>])"

definition audio_frame :: incoming where
  "audio_frame = BinaryMessage 42 37 ''audio'' ''audio/mpeg'' ''mp3''"

definition turn_end :: incoming where
  "turn_end = TextMessage ''turn.end'' None"

definition connection :: "incoming list \<Rightarrow> session" where
  "connection ms =
     \<lparr>dial_ok = True, write_config_ok = True, write_ssml_ok = True, reads = ms,
      forwarded = 0, cancelled = None\<rparr>"

definition two_texts :: Communicate where
  "two_texts =
     \<lparr>ttsConfig = \<lparr>Voice = long_form ''en'' ''US'' ''EmmaMultilingualNeural'', Rate = ''+0%'',
                   Volume = ''+0%'', Pitch = ''+0Hz'', Boundary = ''WordBoundary''\<rparr>,
      texts = [''a'', ''b''], state = st0\<rparr>"

text \<open>
  Three ways the network can play the two connections of \<open>two_texts\<close>: both turns end
  with \<open>turn.end\<close>; the first connection is closed normally before \<open>turn.end\<close>; the
  first turn reports a duration far below zero.
\<close>

definition turn_net :: "nat \<Rightarrow> session" where
  "turn_net i =
     (if i = 0 then connection [word_frame 100 10, audio_frame, turn_end]
      else connection [word_frame 0 10, audio_frame, turn_end])"

definition closing_net :: "nat \<Rightarrow> session" where
  "closing_net i =
     (if i = 0 then connection [word_frame 100 10, audio_frame, CloseNormal]
      else connection [word_frame 0 10, audio_frame, turn_end])"

definition negative_net :: "nat \<Rightarrow> session" where
  "negative_net i =
     (if i = 0 then connection [word_frame 100 (- 9000000), audio_frame, turn_end]
      else connection [word_frame 0 10, audio_frame, turn_end])"


text \<open>A boundary event of a given kind, offset, duration and text.\<close>

definition boundary_chunk :: "string \<Rightarrow> real \<Rightarrow> real \<Rightarrow> string \<Rightarrow> TTSChunk" where
  "boundary_chunk kind off dur t = \<lparr>Type = kind, Data = [], Duration = dur, Offset = off, Text = t\<rparr>"

text \<open>The configuration that \<open>NewCommunicate\<close> starts from, for a given voice.\<close>

definition config_of :: "string \<Rightarrow> TTSConfig" where
  "config_of voice =
     \<lparr>Voice = voice, Rate = ''+0%'', Volume = ''+0%'', Pitch = ''+0Hz'', Boundary = ''SentenceBoundary''\<rparr>"

section \<open>Auxiliary definitions of the proofs\<close>

text \<open>The value and the shape of a rune of more than one byte at the head of \<open>p\<close>.\<close>

definition rune_of :: "nat \<Rightarrow> string \<Rightarrow> nat" where
  "rune_of n p =
     (if n \<le> 2 then (byte (p ! 0) mod 32) * 64 + byte (p ! 1) mod 64
      else if n \<le> 3 then (byte (p ! 0) mod 16) * 4096 + (byte (p ! 1) mod 64) * 64 + byte (p ! 2) mod 64
      else (byte (p ! 0) mod 8) * 262144 + (byte (p ! 1) mod 64) * 4096 + (byte (p ! 2) mod 64) * 64 + byte (p ! 3) mod 64)"

definition multi_at :: "nat \<Rightarrow> string \<Rightarrow> bool" where
  "multi_at n p = (\<exists>lo hi. first (byte (p ! 0)) = Some (n, lo, hi) \<and> n \<le> length p \<and>
      lo \<le> byte (p ! 1) \<and> byte (p ! 1) \<le> hi \<and> (3 \<le> n \<longrightarrow> is_cont (p ! 2)) \<and> (4 \<le> n \<longrightarrow> is_cont (p ! 3)))"

text \<open>The bytes that white-space characters are made of.\<close>

definition space_byte :: "char \<Rightarrow> bool" where
  "space_byte c = (byte c \<in> {0x09, 0x0A, 0x0B, 0x0C, 0x0D, 0x20} \<or> 0x80 \<le> byte c)"

text \<open>The split point that one round of the loop of \<open>SplitTextByByteLength\<close> settles on.\<close>

definition split_point :: "string \<Rightarrow> nat \<Rightarrow> nat" where
  "split_point t L =
     (let s0 = findLastNewlineOrSpaceWithinLimit t L;
          s1 = (if s0 < 0 then findSafeUTF8SplitPoint (take L t) else s0);
          s2 = adjustSplitPointForXMLEntity t s1
      in nat (if s2 \<le> 0 then 1 else s2))"

definition chunk_ok :: "nat \<Rightarrow> string \<Rightarrow> bool" where
  "chunk_ok L c = (length c \<le> L \<and> Valid c \<and> entities_whole c)"

definition trimmed_join :: "string \<Rightarrow> string list \<Rightarrow> bool" where
  "trimmed_join t cs = (\<exists>ws. length ws = length cs + 1 \<and> list_all all_space ws \<and> t = interleave ws cs)"

text \<open>
  What the proof of the order of the offsets asks of the reads that are left, with a
  lower bound \<open>lb\<close> on the offsets the server still sends, and what it shows of the
  outcome of a session.
\<close>

definition good_reads :: "real \<Rightarrow> incoming list \<Rightarrow> bool" where
  "good_reads lb ms =
     (let es = filter (\<lambda>m. boundary_type (Meta_Type m)) (concat (map entries_of ms)) in
      list_all (\<lambda>m. lb \<le> Data_Offset m \<and> 0 \<le> Data_Duration m) es
      \<and> sorted (map Data_Offset es) \<and> CloseNormal \<notin> set ms)"

definition session_post :: "real \<Rightarrow> CommunicateState \<Rightarrow> outcome \<Rightarrow> bool" where
  "session_post lb st r =
     (case r of (cs, e, st') \<Rightarrow>
        sorted (boundary_offsets cs)
        \<and> (\<forall>x\<in>set (boundary_offsets cs). lb + OffsetCompensation st \<le> x \<and> x \<le> LastDurationOffset st')
        \<and> (boundary_offsets cs = [] \<longrightarrow> LastDurationOffset st' = LastDurationOffset st)
        \<and> (e = None \<longrightarrow> OffsetCompensation st' = LastDurationOffset st' + 8750000))"

section \<open>Lemmas on the UTF-8 functions of the library\<close>

lemma first_Some:
  "first b = Some (sz, lo, hi) \<Longrightarrow> 2 \<le> sz \<and> sz \<le> 4 \<and> 0x80 \<le> lo \<and> hi \<le> 0xBF \<and> 0xC2 \<le> b \<and> b \<le> 0xF4"
  by (auto simp: first_def split: if_splits)

lemma DecodeRune_size:
  "p \<noteq> [] \<Longrightarrow> DecodeRune p = (r, n) \<Longrightarrow> 1 \<le> n \<and> n \<le> length p \<and> n \<le> 4"
  by (auto simp: DecodeRune_def Let_def Suc_le_eq dest!: first_Some split: if_splits option.splits prod.splits)

lemma DecodeRune_ascii: "p \<noteq> [] \<Longrightarrow> byte (p ! 0) < 0x80 \<Longrightarrow> DecodeRune p = (byte (p ! 0), 1)"
  by (simp add: DecodeRune_def)

lemma DecodeRune_multiI:
  assumes "multi_at n p"
  shows "DecodeRune p = (rune_of n p, n)"
proof -
  from assms obtain lo hi where f: "first (byte (p ! 0)) = Some (n, lo, hi)" and len: "n \<le> length p"
    and b1: "lo \<le> byte (p ! 1)" "byte (p ! 1) \<le> hi"
    and b2: "3 \<le> n \<longrightarrow> is_cont (p ! 2)" and b3: "4 \<le> n \<longrightarrow> is_cont (p ! 3)"
    unfolding multi_at_def by blast
  from first_Some[OF f] have n: "2 \<le> n" "n \<le> 4" and p0: "\<not> byte (p ! 0) < 0x80" by auto
  from n len have ne: "p \<noteq> []" by auto
  from n have "n = 2 \<or> n = 3 \<or> n = 4" by arith
  then show ?thesis
    using f len b1 b2 b3 p0 ne
    by (elim disjE) (simp_all add: DecodeRune_def rune_of_def is_cont_def not_less)
qed

lemma DecodeRune_cases:
  assumes "DecodeRune p = (r, n)" "p \<noteq> []"
  shows "(n = 1 \<and> byte (p ! 0) < 0x80 \<and> r = byte (p ! 0)) \<or>
         (n = 1 \<and> r = RuneError \<and> 0x80 \<le> byte (p ! 0)) \<or>
         (multi_at n p \<and> r = rune_of n p)"
proof (cases "byte (p ! 0) < 0x80")
  case True
  then show ?thesis using assms by (simp add: DecodeRune_def)
next
  case hi: False
  show ?thesis
  proof (cases "first (byte (p ! 0))")
    case None
    then show ?thesis using assms hi by (simp add: DecodeRune_def)
  next
    case (Some t)
    obtain sz lo hi' where t: "t = (sz, lo, hi')" by (cases t)
    from first_Some[OF Some[unfolded t]] have sz: "2 \<le> sz" "sz \<le> 4" by auto
    then have "sz = 2 \<or> sz = 3 \<or> sz = 4" by arith
    then show ?thesis
      using assms hi Some t
      by (elim disjE)
         (auto simp: DecodeRune_def rune_of_def multi_at_def is_cont_def Let_def split: if_splits)
  qed
qed

lemma DecodeRune_multi':
  "DecodeRune p = (r, n) \<Longrightarrow> 2 \<le> n \<Longrightarrow>
     0xC2 \<le> byte (p ! 0) \<and> n \<le> 4 \<and> n \<le> length p \<and> is_cont (p ! 1) \<and> (3 \<le> n \<longrightarrow> is_cont (p ! 2)) \<and> (4 \<le> n \<longrightarrow> is_cont (p ! 3))"
proof -
  assume a: "DecodeRune p = (r, n)" "2 \<le> n"
  then have "p \<noteq> []" by (auto simp: DecodeRune_def)
  from DecodeRune_cases[OF a(1) this] a(2) have "multi_at n p" by auto
  then obtain lo hi where f: "first (byte (p ! 0)) = Some (n, lo, hi)" and len: "n \<le> length p"
    and b1: "lo \<le> byte (p ! 1)" "byte (p ! 1) \<le> hi"
    and b2: "3 \<le> n \<longrightarrow> is_cont (p ! 2)" and b3: "4 \<le> n \<longrightarrow> is_cont (p ! 3)"
    unfolding multi_at_def by blast
  from first_Some[OF f] b1 have "is_cont (p ! 1)" "0xC2 \<le> byte (p ! 0)" "n \<le> 4"
    by (auto simp: is_cont_def)
  then show ?thesis using len b2 b3 by simp
qed

lemma DecodeRune_multi:
  assumes "DecodeRune p = (r, n)" "2 \<le> n" "0 < i" "i < n"
  shows "is_cont (p ! i)"
proof -
  from DecodeRune_multi'[OF assms(1,2)] 
  have *: "n \<le> 4" "is_cont (p ! 1)" "3 \<le> n \<longrightarrow> is_cont (p ! 2)" "4 \<le> n \<longrightarrow> is_cont (p ! 3)"
    by auto
  from assms * have "i = 1 \<or> (i = 2 \<and> 3 \<le> n) \<or> (i = 3 \<and> 4 \<le> n)" by arith
  with * show ?thesis by auto
qed

lemma DecodeRune_one:
  "DecodeRune p = (r, Suc 0) \<Longrightarrow> r \<noteq> RuneError \<Longrightarrow> byte (p ! 0) < 0x80 \<and> r = byte (p ! 0)"
proof -
  assume a: "DecodeRune p = (r, Suc 0)" "r \<noteq> RuneError"
  then have "p \<noteq> []" by (auto simp: DecodeRune_def)
  from DecodeRune_cases[OF a(1) this] a(2) show ?thesis
    by (auto simp: multi_at_def dest: first_Some)
qed

lemma DecodeRune_cong:
  assumes "DecodeRune p = (r, n)" "\<not> (r = RuneError \<and> n = 1)" "p \<noteq> []"
    "n \<le> length q" "\<forall>i<n. q ! i = p ! i"
  shows "DecodeRune q = (r, n)"
proof -
  from DecodeRune_size[OF assms(3,1)] have n: "1 \<le> n" "n \<le> 4" by auto
  then have q0: "q ! 0 = p ! 0" and qne: "q \<noteq> []" using assms(4,5) by auto
  from DecodeRune_cases[OF assms(1,3)] assms(2)
  consider "n = 1" "byte (p ! 0) < 0x80" "r = byte (p ! 0)" | "multi_at n p" "r = rune_of n p"
    by auto
  then show ?thesis
  proof cases
    case 1
    then show ?thesis using DecodeRune_ascii[OF qne] q0 by simp
  next
    case 2
    from 2(1) have n2: "2 \<le> n" by (auto simp: multi_at_def dest: first_Some)
    have eqs: "q ! 0 = p ! 0" "q ! 1 = p ! 1" "3 \<le> n \<longrightarrow> q ! 2 = p ! 2" "4 \<le> n \<longrightarrow> q ! 3 = p ! 3"
      using assms(5) n2 by auto
    have "multi_at n q" using 2(1) eqs assms(4) by (auto simp: multi_at_def)
    moreover have "rune_of n q = rune_of n p" using eqs n2 by (auto simp: rune_of_def)
    ultimately show ?thesis using DecodeRune_multiI 2(2) by simp
  qed
qed

lemma Valid_Nil: "Valid []"
  by (simp add: Valid.simps)

lemma Valid_step:
  "p \<noteq> [] \<Longrightarrow> DecodeRune p = (r, n) \<Longrightarrow> Valid p = (\<not> (r = RuneError \<and> n = 1) \<and> Valid (drop n p))"
  by (subst Valid.simps) auto

lemma DecodeRune_append:
  assumes "DecodeRune p = (r, n)" "\<not> (r = RuneError \<and> n = 1)" "p \<noteq> []"
  shows "DecodeRune (take n p @ q) = (r, n)"
proof -
  from DecodeRune_size[OF assms(3,1)] have n: "1 \<le> n" "n \<le> length p" by auto
  show ?thesis
    by (rule DecodeRune_cong[OF assms]) (use n in \<open>auto simp: nth_append\<close>)
qed

lemma DecodeRune_prefix:
  assumes "DecodeRune p = (r, n)" "\<not> (r = RuneError \<and> n = 1)" "p \<noteq> []"
  shows "DecodeRune (p @ q) = (r, n)"
proof -
  from DecodeRune_size[OF assms(3,1)] have n: "1 \<le> n" "n \<le> length p" by auto
  show ?thesis
    by (rule DecodeRune_cong[OF assms]) (use n in \<open>auto simp: nth_append\<close>)
qed

lemma Valid_rune_append:
  assumes "DecodeRune p = (r, n)" "\<not> (r = RuneError \<and> n = 1)" "p \<noteq> []"
  shows "Valid (take n p @ q) = Valid q"
proof -
  from DecodeRune_size[OF assms(3,1)] have n: "1 \<le> n" "n \<le> length p" by auto
  have "take n p @ q \<noteq> []" using n assms(3) by auto
  from Valid_step[OF this DecodeRune_append[OF assms, of q]] assms(2) n
  show ?thesis by simp
qed

lemma Valid_append: "Valid a \<Longrightarrow> Valid b \<Longrightarrow> Valid (a @ b)"
proof (induction "length a" arbitrary: a rule: less_induct)
  case less
  show ?case
  proof (cases "a = []")
    case True
    then show ?thesis using less.prems by simp
  next
    case False
    obtain r n where d: "DecodeRune a = (r, n)" by (cases "DecodeRune a")
    from DecodeRune_size[OF False d] have n: "1 \<le> n" "n \<le> length a" by auto
    from Valid_step[OF False d] less.prems(1)
    have ok: "\<not> (r = RuneError \<and> n = 1)" and v: "Valid (drop n a)" by auto
    have "Valid (drop n a @ b)"
      by (rule less.hyps) (use n False v less.prems in auto)
    then have "Valid (take n a @ (drop n a @ b))"
      by (simp only: Valid_rune_append[OF d ok False])
    then show ?thesis by (simp del: append_assoc add: append_assoc[symmetric])
  qed
qed

lemma Valid_take_drop:
  "Valid p \<Longrightarrow> i \<le> length p \<Longrightarrow> (i = length p \<or> \<not> is_cont (p ! i)) \<Longrightarrow>
     Valid (take i p) \<and> Valid (drop i p)"
proof (induction "length p" arbitrary: p i rule: less_induct)
  case less
  show ?case
  proof (cases "p = [] \<or> i = 0")
    case True
    then show ?thesis using less.prems by (auto simp: Valid_Nil)
  next
    case False
    then have ne: "p \<noteq> []" and i0: "0 < i" by auto
    obtain r n where d: "DecodeRune p = (r, n)" by (cases "DecodeRune p")
    from DecodeRune_size[OF ne d] have n: "1 \<le> n" "n \<le> length p" by auto
    from Valid_step[OF ne d] less.prems(1)
    have ok: "\<not> (r = RuneError \<and> n = 1)" and v: "Valid (drop n p)" by auto
    have ni: "n \<le> i"
    proof (rule ccontr)
      assume "\<not> n \<le> i"
      then have "i < n" "2 \<le> n" using i0 by auto
      from DecodeRune_multi[OF d this(2) i0 this(1)] less.prems(3) \<open>i < n\<close> n
      show False by auto
    qed
    have "Valid (take (i - n) (drop n p)) \<and> Valid (drop (i - n) (drop n p))"
      by (rule less.hyps) (use n ni ne v less.prems in \<open>auto simp: add.commute\<close>)
    moreover have "take i p = take n p @ take (i - n) (drop n p)"
      using ni by (metis le_add_diff_inverse take_add)
    moreover have "drop (i - n) (drop n p) = drop i p"
      using ni by simp
    ultimately show ?thesis
      using Valid_rune_append[OF d ok ne] by simp
  qed
qed

lemma Valid_drop_of_take:
  "Valid p \<Longrightarrow> Valid (take i p) \<Longrightarrow> Valid (drop i p)"
proof (induction "length p" arbitrary: p i rule: less_induct)
  case less
  show ?case
  proof (cases "p = [] \<or> i = 0 \<or> length p \<le> i")
    case True
    then show ?thesis using less.prems by (auto simp: Valid_Nil)
  next
    case False
    then have ne: "p \<noteq> []" and i0: "0 < i" and il: "i < length p" by auto
    then have ne': "take i p \<noteq> []" by auto
    obtain r n where d': "DecodeRune (take i p) = (r, n)" by (cases "DecodeRune (take i p)")
    from DecodeRune_size[OF ne' d'] il have n: "1 \<le> n" "n \<le> i" by auto
    from Valid_step[OF ne' d'] less.prems(2)
    have ok: "\<not> (r = RuneError \<and> n = 1)" and v': "Valid (drop n (take i p))" by auto
    have d: "DecodeRune p = (r, n)"
      by (rule DecodeRune_cong[OF d' ok ne']) (use n il in auto)
    from Valid_step[OF ne d] less.prems(1) have v: "Valid (drop n p)" by auto
    have "Valid (drop (i - n) (drop n p))"
      by (rule less.hyps) (use n il v v' in \<open>auto simp: drop_take\<close>)
    then show ?thesis using n by simp
  qed
qed

lemma Valid_boundary_near:
  "Valid p \<Longrightarrow> m \<le> length p \<Longrightarrow> \<exists>k. m \<le> k \<and> k \<le> m + 3 \<and> k \<le> length p \<and> Valid (take k p)"
proof (induction "length p" arbitrary: p m rule: less_induct)
  case less
  show ?case
  proof (cases "m = 0")
    case True
    then show ?thesis by (intro exI[of _ 0]) (simp add: Valid_Nil)
  next
    case False
    then have m0: "0 < m" by simp
    then have ne: "p \<noteq> []" using less.prems by auto
    obtain r n where d: "DecodeRune p = (r, n)" by (cases "DecodeRune p")
    from DecodeRune_size[OF ne d] have n: "1 \<le> n" "n \<le> length p" "n \<le> 4" by auto
    from Valid_step[OF ne d] less.prems(1)
    have ok: "\<not> (r = RuneError \<and> n = 1)" and v: "Valid (drop n p)" by auto
    show ?thesis
    proof (cases "m \<le> n")
      case True
      have "Valid (take n p @ [])" by (simp only: Valid_rune_append[OF d ok ne] Valid_Nil)
      then show ?thesis using True n m0 by (intro exI[of _ n]) auto
    next
      case False
      have "\<exists>k. m - n \<le> k \<and> k \<le> m - n + 3 \<and> k \<le> length (drop n p) \<and> Valid (take k (drop n p))"
        by (rule less.hyps) (use n ne v less.prems False in auto)
      then obtain k where k: "m - n \<le> k" "k \<le> m - n + 3" "k \<le> length (drop n p)" "Valid (take k (drop n p))"
        by blast
      have "take (n + k) p = take n p @ take k (drop n p)" by (simp add: take_add)
      then have "Valid (take (n + k) p)" using Valid_rune_append[OF d ok ne] k(4) by simp
      then show ?thesis using k False n by (intro exI[of _ "n + k"]) auto
    qed
  qed
qed

lemma byte_char_of: "byte (char_of (n::nat)) = n mod 256"
  by (simp add: byte_def)

lemma IsSpace_RuneError: "\<not> IsSpace RuneError"
  by (simp add: IsSpace_def RuneError_def)

lemma DecodeRune_single: "byte c < 0x80 \<Longrightarrow> DecodeRune [c] = (byte c, 1)"
  by (simp add: DecodeRune_def)

lemma DecodeLastRune_space:
  assumes "DecodeLastRune p = (r, n)" "IsSpace r"
  shows "1 \<le> n \<and> n \<le> length p \<and> DecodeRune (drop (length p - n) p) = (r, n)"
proof -
  have ne: "p \<noteq> []" using assms by (auto simp: DecodeLastRune_def IsSpace_RuneError)
  show ?thesis
  proof (cases "byte (p ! (length p - 1)) < 0x80")
    case True
    then have rn: "r = byte (p ! (length p - 1))" "n = 1"
      using assms(1) ne by (auto simp: DecodeLastRune_def Let_def)
    have "drop (length p - 1) p = [p ! (length p - 1)]"
      using ne by (metis append_butlast_last_id append_eq_conv_conj last_conv_nth length_butlast)
    then show ?thesis using rn True ne by (simp add: DecodeRune_single Suc_le_eq)
  next
    case False
    define start where "start = (case find (\<lambda>s. RuneStart (p ! s)) (rev [length p - 4 ..< length p - 1]) of
                          Some s \<Rightarrow> s | None \<Rightarrow> length p - 4 - 1)"
    obtain r' n' where d: "DecodeRune (drop start p) = (r', n')" by (cases "DecodeRune (drop start p)")
    have "DecodeLastRune p = (if start + n' \<noteq> length p then (RuneError, 1) else (r', n'))"
      using False ne d by (simp add: DecodeLastRune_def Let_def start_def)
    with assms have eq: "start + n' = length p" "r = r'" "n = n'"
      by (auto simp: IsSpace_RuneError split: if_splits)
    have "start < length p"
    proof (cases "find (\<lambda>s. RuneStart (p ! s)) (rev [length p - 4 ..< length p - 1])")
      case None
      then show ?thesis using ne by (simp add: start_def)
    next
      case (Some s)
      then have "s \<in> set (rev [length p - 4 ..< length p - 1])"
        by (metis find_Some_iff nth_mem)
      then have "s < length p" by auto
      then show ?thesis using Some by (simp add: start_def)
    qed
    then have "drop start p \<noteq> []" by simp
    moreover have "length p - n' = start" using eq by arith
    ultimately show ?thesis using DecodeRune_size[of "drop start p" r' n'] eq d by auto
  qed
qed

lemma TrimLeftSpace_Nil: "TrimLeftSpace [] = []"
  by (simp add: TrimLeftSpace.simps)

lemma TrimLeftSpace_step:
  "p \<noteq> [] \<Longrightarrow> DecodeRune p = (r, n) \<Longrightarrow>
     TrimLeftSpace p = (if IsSpace r then TrimLeftSpace (drop n p) else p)"
  by (subst TrimLeftSpace.simps) auto

lemma TrimRightSpace_Nil: "TrimRightSpace [] = []"
  by (simp add: TrimRightSpace.simps)

lemma TrimRightSpace_step:
  "p \<noteq> [] \<Longrightarrow> DecodeLastRune p = (r, n) \<Longrightarrow>
     TrimRightSpace p = (if IsSpace r then TrimRightSpace (take (length p - n) p) else p)"
  by (subst TrimRightSpace.simps) auto

lemma all_space_Nil: "all_space []"
  by (simp add: all_space_def TrimLeftSpace_Nil)

lemma all_space_rune:
  assumes "DecodeRune p = (r, n)" "IsSpace r" "p \<noteq> []"
  shows "all_space (take n p @ w) = all_space w"
proof -
  have ok: "\<not> (r = RuneError \<and> n = 1)" using assms(2) IsSpace_RuneError by auto
  from DecodeRune_size[OF assms(3,1)] have n: "1 \<le> n" "n \<le> length p" by auto
  have "take n p @ w \<noteq> []" using n assms(3) by auto
  from TrimLeftSpace_step[OF this DecodeRune_append[OF assms(1) ok assms(3), of w]] assms(2) n
  show ?thesis by (simp add: all_space_def)
qed

lemma TrimLeftSpace_all_space_append:
  "all_space a \<Longrightarrow> TrimLeftSpace (a @ b) = TrimLeftSpace b"
proof (induction "length a" arbitrary: a rule: less_induct)
  case less
  show ?case
  proof (cases "a = []")
    case True
    then show ?thesis by simp
  next
    case False
    obtain r n where d: "DecodeRune a = (r, n)" by (cases "DecodeRune a")
    from DecodeRune_size[OF False d] have n: "1 \<le> n" "n \<le> length a" by auto
    from TrimLeftSpace_step[OF False d] less.prems False
    have sp: "IsSpace r" and rest: "all_space (drop n a)"
      by (auto simp: all_space_def split: if_splits)
    have ok: "\<not> (r = RuneError \<and> n = 1)" using sp IsSpace_RuneError by auto
    have "a @ b \<noteq> []" using False by simp
    from TrimLeftSpace_step[OF this DecodeRune_prefix[OF d ok False, of b]] sp n
    have "TrimLeftSpace (a @ b) = TrimLeftSpace (drop n a @ b)" by simp
    also have "\<dots> = TrimLeftSpace b"
      by (rule less.hyps) (use n False rest in auto)
    finally show ?thesis .
  qed
qed

lemma all_space_append: "all_space a \<Longrightarrow> all_space b \<Longrightarrow> all_space (a @ b)"
  by (simp add: all_space_def TrimLeftSpace_all_space_append)

lemma TrimLeftSpace_drop:
  "\<exists>k\<le>length p. TrimLeftSpace p = drop k p \<and> all_space (take k p)"
proof (induction "length p" arbitrary: p rule: less_induct)
  case less
  show ?case
  proof (cases "p = []")
    case True
    then show ?thesis by (simp add: TrimLeftSpace_Nil all_space_Nil)
  next
    case False
    obtain r n where d: "DecodeRune p = (r, n)" by (cases "DecodeRune p")
    from DecodeRune_size[OF False d] have n: "1 \<le> n" "n \<le> length p" by auto
    show ?thesis
    proof (cases "IsSpace r")
      case sp: True
      have "\<exists>k\<le>length (drop n p). TrimLeftSpace (drop n p) = drop k (drop n p) \<and> all_space (take k (drop n p))"
        by (rule less.hyps) (use n False in auto)
      then obtain k where k: "k \<le> length (drop n p)" "TrimLeftSpace (drop n p) = drop k (drop n p)"
        "all_space (take k (drop n p))" by blast
      have "all_space (take n p @ take k (drop n p))"
        using all_space_rune[OF d sp False] k(3) by simp
      then have "all_space (take (n + k) p)" by (simp add: take_add)
      moreover have "TrimLeftSpace p = drop (n + k) p"
        using TrimLeftSpace_step[OF False d] sp k(2) by (simp add: add.commute)
      ultimately show ?thesis using k(1) n by (intro exI[of _ "n + k"]) auto
    next
      case False
      then have "TrimLeftSpace p = p" using TrimLeftSpace_step[OF \<open>p \<noteq> []\<close> d] by simp
      then show ?thesis by (intro exI[of _ 0]) (simp add: all_space_Nil)
    qed
  qed
qed

lemma TrimRightSpace_take:
  "\<exists>k\<le>length p. TrimRightSpace p = take k p \<and> all_space (drop k p)"
proof (induction "length p" arbitrary: p rule: less_induct)
  case less
  show ?case
  proof (cases "p = []")
    case True
    then show ?thesis by (simp add: TrimRightSpace_Nil all_space_Nil)
  next
    case False
    obtain r n where d: "DecodeLastRune p = (r, n)" by (cases "DecodeLastRune p")
    show ?thesis
    proof (cases "IsSpace r")
      case sp: True
      from DecodeLastRune_space[OF d sp]
      have n: "1 \<le> n" "n \<le> length p" and dr: "DecodeRune (drop (length p - n) p) = (r, n)" by auto
      define q where "q = take (length p - n) p"
      have "\<exists>k\<le>length q. TrimRightSpace q = take k q \<and> all_space (drop k q)"
        by (rule less.hyps) (use n False in \<open>auto simp: q_def\<close>)
      then obtain k where k: "k \<le> length q" "TrimRightSpace q = take k q" "all_space (drop k q)"
        by blast
      have kl: "k \<le> length p - n" using k(1) by (simp add: q_def)
      have ne: "drop (length p - n) p \<noteq> []" using n False by auto
      have "all_space (take n (drop (length p - n) p) @ [])"
        by (simp only: all_space_rune[OF dr sp ne] all_space_Nil)
      then have last: "all_space (drop (length p - n) p)" using n by simp
      have "drop k (q @ drop (length p - n) p) = drop k q @ drop (length p - n) p"
        using k(1) by simp
      then have "drop k p = drop k q @ drop (length p - n) p"
        by (simp add: q_def)
      then have "all_space (drop k p)" using all_space_append[OF k(3) last] by simp
      moreover have "TrimRightSpace p = take k p"
        using TrimRightSpace_step[OF False d] sp k(2) kl by (simp add: q_def min_def)
      ultimately show ?thesis using kl by (intro exI[of _ k]) auto
    next
      case False
      then have "TrimRightSpace p = p" using TrimRightSpace_step[OF \<open>p \<noteq> []\<close> d] by simp
      then show ?thesis by (intro exI[of _ "length p"]) (simp add: all_space_Nil)
    qed
  qed
qed

lemma Valid_TrimLeftSpace: "Valid p \<Longrightarrow> Valid (TrimLeftSpace p)"
proof (induction "length p" arbitrary: p rule: less_induct)
  case less
  show ?case
  proof (cases "p = []")
    case True
    then show ?thesis by (simp add: TrimLeftSpace_Nil Valid_Nil)
  next
    case False
    obtain r n where d: "DecodeRune p = (r, n)" by (cases "DecodeRune p")
    from DecodeRune_size[OF False d] have n: "1 \<le> n" "n \<le> length p" by auto
    from Valid_step[OF False d] less.prems have v: "Valid (drop n p)" by simp
    have "Valid (TrimLeftSpace (drop n p))"
      by (rule less.hyps) (use n False v in auto)
    then show ?thesis
      using TrimLeftSpace_step[OF False d] less.prems by simp
  qed
qed

lemma DecodeRune_not_cont:
  assumes "DecodeRune p = (r, n)" "\<not> (r = RuneError \<and> n = 1)" "p \<noteq> []"
  shows "\<not> is_cont (p ! 0)"
proof -
  from DecodeRune_cases[OF assms(1,3)] assms(2)
  consider "byte (p ! 0) < 0x80" | "multi_at n p" by auto
  then show ?thesis
  proof cases
    case 1
    then show ?thesis by (simp add: is_cont_def)
  next
    case 2
    then show ?thesis by (auto simp: multi_at_def is_cont_def dest!: first_Some)
  qed
qed

lemma Valid_TrimRightSpace: "Valid p \<Longrightarrow> Valid (TrimRightSpace p)"
proof (induction "length p" arbitrary: p rule: less_induct)
  case less
  show ?case
  proof (cases "p = []")
    case True
    then show ?thesis by (simp add: TrimRightSpace_Nil Valid_Nil)
  next
    case False
    obtain r n where d: "DecodeLastRune p = (r, n)" by (cases "DecodeLastRune p")
    show ?thesis
    proof (cases "IsSpace r")
      case sp: True
      from DecodeLastRune_space[OF d sp]
      have n: "1 \<le> n" "n \<le> length p" and dr: "DecodeRune (drop (length p - n) p) = (r, n)" by auto
      have ok: "\<not> (r = RuneError \<and> n = 1)" using sp IsSpace_RuneError by auto
      have ne: "drop (length p - n) p \<noteq> []" using n False by auto
      from DecodeRune_not_cont[OF dr ok ne] n
      have "\<not> is_cont (p ! (length p - n))" by simp
      then have v: "Valid (take (length p - n) p)"
        using Valid_take_drop[OF less.prems, of "length p - n"] by simp
      have "Valid (TrimRightSpace (take (length p - n) p))"
        by (rule less.hyps) (use n False v in auto)
      then show ?thesis using TrimRightSpace_step[OF False d] sp by simp
    next
      case False
      then show ?thesis using TrimRightSpace_step[OF \<open>p \<noteq> []\<close> d] less.prems by simp
    qed
  qed
qed

lemma Valid_TrimSpace: "Valid p \<Longrightarrow> Valid (TrimSpace p)"
  by (simp add: TrimSpace_def Valid_TrimLeftSpace Valid_TrimRightSpace)

lemma length_TrimSpace: "length (TrimSpace p) \<le> length p"
proof -
  obtain k where k: "TrimLeftSpace p = drop k p" using TrimLeftSpace_drop by blast
  obtain j where j: "TrimRightSpace (drop k p) = take j (drop k p)" using TrimRightSpace_take by blast
  show ?thesis by (simp add: TrimSpace_def k j)
qed

lemma all_space_bytes: "all_space w \<Longrightarrow> c \<in> set w \<Longrightarrow> space_byte c"
proof (induction "length w" arbitrary: w rule: less_induct)
  case less
  then have ne: "w \<noteq> []" by auto
  obtain r n where d: "DecodeRune w = (r, n)" by (cases "DecodeRune w")
  from DecodeRune_size[OF ne d] have n: "1 \<le> n" "n \<le> length w" by auto
  from TrimLeftSpace_step[OF ne d] less.prems(1) ne
  have sp: "IsSpace r" and rest: "all_space (drop n w)"
    by (auto simp: all_space_def split: if_splits)
  from less.prems(2) have "c \<in> set (take n w) \<or> c \<in> set (drop n w)"
    by (metis Un_iff append_take_drop_id set_append)
  then show ?case
  proof
    assume "c \<in> set (drop n w)"
    with less.hyps[of "drop n w"] rest n ne show ?thesis by auto
  next
    assume "c \<in> set (take n w)"
    then obtain i where i: "i < n" "c = w ! i"
      using n by (auto simp: in_set_conv_nth)
    show ?thesis
    proof (cases "n = 1")
      case True
      with i have c: "c = w ! 0" by simp
      from sp IsSpace_RuneError have "r \<noteq> RuneError" by auto
      with DecodeRune_one[of w r] d True have "byte (w ! 0) < 0x80" "r = byte (w ! 0)" by auto
      with sp c show ?thesis by (auto simp: IsSpace_def space_byte_def split: if_splits)
    next
      case False
      with n have n2: "2 \<le> n" by simp
      from DecodeRune_multi'[OF d n2] have "0xC2 \<le> byte (w ! 0)" by simp
      moreover have "0 < i \<Longrightarrow> is_cont (w ! i)" using DecodeRune_multi[OF d n2 _ i(1)] by simp
      ultimately show ?thesis using i(2) by (cases "i = 0") (auto simp: space_byte_def is_cont_def)
    qed
  qed
qed

lemma ascii_Valid: "(\<forall>c\<in>set s. byte c < 0x80) \<Longrightarrow> Valid s"
proof (induction s)
  case Nil
  then show ?case by (simp add: Valid_Nil)
next
  case (Cons c s)
  have "DecodeRune (c # s) = (byte c, 1)" using Cons.prems by (simp add: DecodeRune_ascii)
  from Valid_step[OF _ this] Cons show ?case by (simp add: RuneError_def)
qed

lemma Valid_bytes2:
  fixes b0 b1 :: nat
  assumes "first b0 = Some (2, lo, hi)" "lo \<le> b1" "b1 \<le> hi"
  shows "Valid [char_of b0, char_of b1]"
proof -
  let ?p = "[char_of b0, char_of b1]"
  from first_Some[OF assms(1)] assms have "b0 mod 256 = b0" "b1 mod 256 = b1" by auto
  then have "multi_at 2 ?p" using assms by (simp add: multi_at_def byte_def)
  from DecodeRune_multiI[OF this] Valid_step[of ?p "rune_of 2 ?p" 2] show ?thesis
    by (simp add: Valid_Nil)
qed

lemma Valid_bytes3:
  fixes b0 b1 b2 :: nat
  assumes "first b0 = Some (3, lo, hi)" "lo \<le> b1" "b1 \<le> hi" "0x80 \<le> b2" "b2 \<le> 0xBF"
  shows "Valid [char_of b0, char_of b1, char_of b2]"
proof -
  let ?p = "[char_of b0, char_of b1, char_of b2]"
  from first_Some[OF assms(1)] assms have "b0 mod 256 = b0" "b1 mod 256 = b1" "b2 mod 256 = b2" by auto
  then have "multi_at 3 ?p" using assms by (simp add: multi_at_def byte_def is_cont_def)
  from DecodeRune_multiI[OF this] Valid_step[of ?p "rune_of 3 ?p" 3] show ?thesis
    by (simp add: Valid_Nil)
qed

lemma Valid_bytes4:
  fixes b0 b1 b2 b3 :: nat
  assumes "first b0 = Some (4, lo, hi)" "lo \<le> b1" "b1 \<le> hi" "0x80 \<le> b2" "b2 \<le> 0xBF" "0x80 \<le> b3" "b3 \<le> 0xBF"
  shows "Valid [char_of b0, char_of b1, char_of b2, char_of b3]"
proof -
  let ?p = "[char_of b0, char_of b1, char_of b2, char_of b3]"
  from first_Some[OF assms(1)] assms have "b0 mod 256 = b0" "b1 mod 256 = b1" "b2 mod 256 = b2" "b3 mod 256 = b3" by auto
  then have "multi_at 4 ?p" using assms by (simp add: multi_at_def byte_def is_cont_def)
  from DecodeRune_multiI[OF this] Valid_step[of ?p "rune_of 4 ?p" 4] show ?thesis
    by (simp add: Valid_Nil)
qed

lemma cont_range: "0x80 \<le> 0x80 + (x::nat) mod 64 \<and> 0x80 + x mod 64 \<le> 0xBF"
proof -
  have "x mod 64 < 64" by simp
  then show ?thesis by linarith
qed

lemma mod64_small: "(x::nat) < 64 \<Longrightarrow> x mod 64 = x"
  by simp

lemma mod64_shift: "k * 64 \<le> (x::nat) \<Longrightarrow> x < k * 64 + 64 \<Longrightarrow> x mod 64 = x - k * 64"
proof -
  assume a: "k * 64 \<le> x" "x < k * 64 + 64"
  then have "x = (x - k * 64) + k * 64" by simp
  then have "x mod 64 = ((x - k * 64) + k * 64) mod 64" by simp
  also have "\<dots> = (x - k * 64) mod 64" by (simp only: mod_mult_self1 mod_mult_self3)
  also have "\<dots> = x - k * 64" using a by simp
  finally show ?thesis .
qed

lemma Valid_enc3:
  fixes r :: nat
  assumes "0x800 \<le> r" "r \<le> 0xFFFF" "\<not> (0xD800 \<le> r \<and> r \<le> 0xDFFF)"
  shows "Valid (enc3 r)"
proof -
  define a where "a = r div 4096"
  define b where "b = r div 64"
  have a15: "a \<le> 15" unfolding a_def using assms(2) by (simp add: div_le_mono[of r 65535 4096, simplified])
  have b32: "32 \<le> b" unfolding b_def using assms(1) by (simp add: less_eq_div_iff_mult_less_eq)
  note c2 = cont_range[of r, THEN conjunct1] cont_range[of r, THEN conjunct2]
  consider "a = 0" | "a = 13" | "1 \<le> a" "a \<noteq> 13" "a \<noteq> 14" "a \<noteq> 15" | "14 \<le> a"
    by arith
  then show ?thesis
  proof cases
    case 1
    then have f: "first (0xE0 + r div 4096) = Some (3, 0xA0, 0xBF)" by (simp add: first_def a_def)
    from 1 have "r < 4096" unfolding a_def by (simp add: div_eq_0_iff)
    then have "b < 64" unfolding b_def by (simp add: div_less_iff_less_mult)
    then have "b mod 64 = b" by simp
    with b32 have "0xA0 \<le> 0x80 + (r div 64) mod 64" "0x80 + (r div 64) mod 64 \<le> 0xBF"
      using cont_range[of b] by (simp_all add: b_def)
    with f show ?thesis unfolding enc3_def using c2 by (rule Valid_bytes3)
  next
    case 2
    then have f: "first (0xE0 + r div 4096) = Some (3, 0x80, 0x9F)" by (simp add: first_def a_def)
    from 2 have "13 \<le> r div 4096" "r div 4096 < 14" by (simp_all add: a_def)
    then have r: "53248 \<le> r" "r < 57344"
      by (simp_all add: less_eq_div_iff_mult_less_eq div_less_iff_less_mult)
    with assms(3) have "r < 55296" by simp
    then have "b < 864" unfolding b_def by (simp add: div_less_iff_less_mult)
    moreover have "832 \<le> b" unfolding b_def using r by (simp add: less_eq_div_iff_mult_less_eq)
    ultimately have "b mod 64 = b - 832" using mod64_shift[of 13 b] by simp
    with \<open>b < 864\<close> have "0x80 \<le> 0x80 + (r div 64) mod 64" "0x80 + (r div 64) mod 64 \<le> 0x9F"
      by (simp_all add: b_def)
    with f show ?thesis unfolding enc3_def using c2 by (rule Valid_bytes3)
  next
    case 3
    then have f: "first (0xE0 + r div 4096) = Some (3, 0x80, 0xBF)" using a15 by (auto simp: first_def a_def)
    show ?thesis unfolding enc3_def
      using f cont_range[of "r div 64", THEN conjunct1] cont_range[of "r div 64", THEN conjunct2] c2
      by (rule Valid_bytes3)
  next
    case 4
    then have f: "first (0xE0 + r div 4096) = Some (3, 0x80, 0xBF)" using a15 by (auto simp: first_def a_def)
    show ?thesis unfolding enc3_def
      using f cont_range[of "r div 64", THEN conjunct1] cont_range[of "r div 64", THEN conjunct2] c2
      by (rule Valid_bytes3)
  qed
qed

lemma Valid_enc4:
  fixes r :: nat
  assumes "0xFFFF < r" "r \<le> 0x10FFFF"
  shows "Valid [char_of (0xF0 + r div 262144), char_of (0x80 + (r div 4096) mod 64),
            char_of (0x80 + (r div 64) mod 64), char_of (0x80 + r mod 64)]"
proof -
  define a where "a = r div 262144"
  define b where "b = r div 4096"
  have a4: "a \<le> 4" unfolding a_def using assms(2) by (simp add: div_le_mono[of r 1114111 262144, simplified])
  have b16: "16 \<le> b" unfolding b_def using assms(1) by (simp add: less_eq_div_iff_mult_less_eq)
  have b271: "b \<le> 271" unfolding b_def using assms(2) by (simp add: div_le_mono[of r 1114111 4096, simplified])
  note c = cont_range[of "r div 64", THEN conjunct1] cont_range[of "r div 64", THEN conjunct2]
     cont_range[of r, THEN conjunct1] cont_range[of r, THEN conjunct2]
  consider "a = 0" | "1 \<le> a" "a \<le> 3" | "a = 4" using a4 by arith
  then show ?thesis
  proof cases
    case 1
    then have f: "first (0xF0 + r div 262144) = Some (4, 0x90, 0xBF)" by (simp add: first_def a_def)
    from 1 have "r < 262144" unfolding a_def by (simp add: div_eq_0_iff)
    then have "b < 64" unfolding b_def by (simp add: div_less_iff_less_mult)
    then have "b mod 64 = b" by simp
    with b16 \<open>b < 64\<close> have "0x90 \<le> 0x80 + (r div 4096) mod 64" "0x80 + (r div 4096) mod 64 \<le> 0xBF"
      by (simp_all add: b_def)
    with f show ?thesis using c by (rule Valid_bytes4)
  next
    case 2
    then have f: "first (0xF0 + r div 262144) = Some (4, 0x80, 0xBF)" by (auto simp: first_def a_def)
    show ?thesis
      using f cont_range[of "r div 4096", THEN conjunct1] cont_range[of "r div 4096", THEN conjunct2] c
      by (rule Valid_bytes4)
  next
    case 3
    then have f: "first (0xF0 + r div 262144) = Some (4, 0x80, 0x8F)" by (simp add: first_def a_def)
    from 3 have "4 \<le> r div 262144" by (simp add: a_def)
    then have "1048576 \<le> r" by (simp add: less_eq_div_iff_mult_less_eq)
    then have "256 \<le> b" unfolding b_def by (simp add: less_eq_div_iff_mult_less_eq)
    with b271 have "b mod 64 = b - 256" using mod64_shift[of 4 b] by simp
    with b271 have "0x80 \<le> 0x80 + (r div 4096) mod 64" "0x80 + (r div 4096) mod 64 \<le> 0x8F"
      by (simp_all add: b_def)
    with f show ?thesis using c by (rule Valid_bytes4)
  qed
qed

lemma Valid_EncodeRune: "Valid (EncodeRune r)"
proof -
  consider "r \<le> 0x7F" | "0x7F < r" "r \<le> 0x7FF"
    | "0x7FF < r" "r > 0x10FFFF \<or> (0xD800 \<le> r \<and> r \<le> 0xDFFF)"
    | "0x7FF < r" "r \<le> 0xFFFF" "\<not> (0xD800 \<le> r \<and> r \<le> 0xDFFF)"
    | "0xFFFF < r" "r \<le> 0x10FFFF"
    by linarith
  then show ?thesis
  proof cases
    case 1
    then have "EncodeRune r = [char_of r]" by (simp add: EncodeRune_def)
    moreover have "byte (char_of r) < 0x80" using 1 by (simp add: byte_def)
    ultimately show ?thesis using ascii_Valid[of "[char_of r]"] by simp
  next
    case 2
    then have e: "EncodeRune r = [char_of (0xC0 + r div 64), char_of (0x80 + r mod 64)]"
      by (simp add: EncodeRune_def)
    have "2 \<le> r div 64" using 2 by (simp add: less_eq_div_iff_mult_less_eq)
    moreover have "r div 64 < 32" using 2 by (simp add: div_less_iff_less_mult)
    ultimately have "first (0xC0 + r div 64) = Some (2, 0x80, 0xBF)" by (simp add: first_def)
    then show ?thesis unfolding e
      using cont_range[of r, THEN conjunct1] cont_range[of r, THEN conjunct2] by (rule Valid_bytes2)
  next
    case 3
    then have "EncodeRune r = enc3 RuneError" by (auto simp: EncodeRune_def)
    moreover have "Valid (enc3 RuneError)" by (rule Valid_enc3) (simp_all add: RuneError_def)
    ultimately show ?thesis by simp
  next
    case 4
    then have "EncodeRune r = enc3 r" by (auto simp: EncodeRune_def)
    moreover have "Valid (enc3 r)" by (rule Valid_enc3) (use 4 in simp_all)
    ultimately show ?thesis by simp
  next
    case 5
    then have e: "EncodeRune r = [char_of (0xF0 + r div 262144), char_of (0x80 + (r div 4096) mod 64),
            char_of (0x80 + (r div 64) mod 64), char_of (0x80 + r mod 64)]"
      by (auto simp: EncodeRune_def)
    show ?thesis unfolding e using 5 by (rule Valid_enc4)
  qed
qed

section \<open>Lemmas on entities and on the split point\<close>

lemma entities_whole_no_amp: "amp \<notin> set p \<Longrightarrow> entities_whole p"
  by (induction p) auto

lemma entities_whole_suffix: "entities_whole (a @ b) \<Longrightarrow> entities_whole b"
  by (induction a) auto

lemma tail_no_amp: "t \<in> set entity_tails \<Longrightarrow> amp \<notin> set t"
  by (auto simp: entity_tails_def amp_def)

lemma tail_semicolon_last:
  "t \<in> set entity_tails \<Longrightarrow> t = b @ us \<Longrightarrow> us \<noteq> [] \<Longrightarrow> semicolon \<notin> set b \<and> semicolon \<in> set us"
  by (auto simp: entity_tails_def semicolon_def append_eq_Cons_conv Cons_eq_append_conv)

lemma prefix_append_not_mem:
  "c \<notin> set t \<Longrightarrow> prefix t (a @ c # x) = prefix t a"
  by (auto simp: prefix_append prefix_Cons)

lemma entities_whole_split:
  "entities_whole (a @ amp # x) = (entities_whole a \<and> entities_whole (amp # x))"
proof (induction a)
  case Nil
  then show ?case by simp
next
  case (Cons c a)
  have "list_ex (\<lambda>t. prefix t (a @ amp # x)) entity_tails = list_ex (\<lambda>t. prefix t a) entity_tails"
    using prefix_append_not_mem[OF tail_no_amp] by (auto simp: list_ex_iff)
  with Cons show ?case by auto
qed

lemma entities_whole_last_closed:
  assumes "entities_whole (amp # b @ r)" "semicolon \<in> set b" "amp \<notin> set b"
  shows "entities_whole (amp # b)"
proof -
  from assms(1) obtain t where t: "t \<in> set entity_tails" "prefix t (b @ r)"
    by (auto simp: list_ex_iff)
  have "prefix t b"
  proof (rule ccontr)
    assume "\<not> prefix t b"
    with t(2) obtain us where us: "t = b @ us" "us \<noteq> []"
      by (auto simp: prefix_append)
    from tail_semicolon_last[OF t(1) us] assms(2) show False by simp
  qed
  with t(1) have "list_ex (\<lambda>t. prefix t b) entity_tails" by (auto simp: list_ex_iff)
  then show ?thesis using entities_whole_no_amp[OF assms(3)] by simp
qed

lemma entities_whole_drop_semicolon_free:
  "entities_whole (x @ w) \<Longrightarrow> semicolon \<notin> set w \<Longrightarrow> entities_whole x"
proof (induction x)
  case Nil
  then show ?case by simp
next
  case (Cons c x)
  then have rest: "entities_whole x" by simp
  show ?case
  proof (cases "c = amp")
    case False
    then show ?thesis using rest by simp
  next
    case True
    with Cons.prems(1) obtain t where t: "t \<in> set entity_tails" "prefix t (x @ w)"
      by (auto simp: list_ex_iff)
    have "prefix t x"
    proof (rule ccontr)
      assume "\<not> prefix t x"
      with t(2) obtain us where us: "t = x @ us" "us \<noteq> []" "prefix us w"
        by (auto simp: prefix_append)
      from tail_semicolon_last[OF t(1) us(1,2)] have "semicolon \<in> set us" by simp
      with us(3) Cons.prems(2) show False by (auto simp: prefix_def)
    qed
    with t(1) rest True show ?thesis by (auto simp: list_ex_iff)
  qed
qed

lemma LastIndex_split:
  assumes "c \<in> set s"
  shows "\<exists>a b. s = a @ c # b \<and> c \<notin> set b \<and> LastIndex s c = int (length a)"
proof -
  from split_list_last[OF assms] obtain a b where ab: "s = a @ c # b" "c \<notin> set b" by blast
  have "takeWhile (\<lambda>x. x \<noteq> c) (rev s) = rev b"
    using ab by (auto simp: takeWhile_tail)
  then have "LastIndex s c = int (length a)" using assms ab by (simp add: LastIndex_def)
  with ab show ?thesis by blast
qed

lemma LastIndex_neg: "c \<notin> set s \<Longrightarrow> LastIndex s c = - 1"
  by (simp add: LastIndex_def)

lemma LastIndex_nth:
  assumes "c \<in> set s"
  shows "0 \<le> LastIndex s c \<and> LastIndex s c < int (length s) \<and> s ! nat (LastIndex s c) = c"
proof -
  from LastIndex_split[OF assms] obtain a b where "s = a @ c # b" "LastIndex s c = int (length a)"
    by blast
  then show ?thesis by simp
qed

lemma adjust_stop:
  "\<not> (0 < s \<and> amp \<in> set (take (nat s) t)) \<Longrightarrow> adjustSplitPointForXMLEntity t s = s"
  by (subst adjustSplitPointForXMLEntity.simps) auto

lemma adjust_cases:
  assumes "0 < s" "amp \<in> set (take (nat s) t)"
  obtains a b where "take (nat s) t = a @ amp # b" "amp \<notin> set b"
    "adjustSplitPointForXMLEntity t s =
       (if semicolon \<in> set b then s else adjustSplitPointForXMLEntity t (int (length a)))"
proof -
  from LastIndex_split[OF assms(2)] obtain a b where
    ab: "take (nat s) t = a @ amp # b" "amp \<notin> set b" "LastIndex (take (nat s) t) amp = int (length a)"
    by blast
  have "semicolon \<noteq> amp" by (simp add: semicolon_def amp_def)
  then have "adjustSplitPointForXMLEntity t s =
       (if semicolon \<in> set b then s else adjustSplitPointForXMLEntity t (int (length a)))"
    using assms ab by (subst adjustSplitPointForXMLEntity.simps) (simp add: Let_def)
  with ab(1,2) show ?thesis by (rule that)
qed

lemma take_prefix_length:
  assumes "take n t = a @ c # b"
  shows "take (length a) t = a \<and> length a < n \<and> length a < length t \<and> t ! length a = c"
proof -
  have l: "length (take n t) = length a + 1 + length b" using assms by simp
  then have la: "length a < n" "length a < length t" by auto
  have "take (length a) (take n t) = a" using assms by simp
  then have "take (length a) t = a" using la by (simp add: min_def)
  moreover have "take n t ! length a = c" using assms by simp
  then have "t ! length a = c" using la by simp
  ultimately show ?thesis using la by simp
qed

lemma adjust_range: "0 \<le> s \<Longrightarrow> 0 \<le> adjustSplitPointForXMLEntity t s \<and> adjustSplitPointForXMLEntity t s \<le> s"
proof (induction "nat s" arbitrary: s rule: less_induct)
  case less
  show ?case
  proof (cases "0 < s \<and> amp \<in> set (take (nat s) t)")
    case False
    then show ?thesis using less.prems by (simp add: adjust_stop)
  next
    case True
    then obtain a b where ab: "take (nat s) t = a @ amp # b"
      "adjustSplitPointForXMLEntity t s =
       (if semicolon \<in> set b then s else adjustSplitPointForXMLEntity t (int (length a)))"
      using adjust_cases[of s t] by metis
    from take_prefix_length[OF ab(1)] have la: "length a < nat s" by simp
    have "0 \<le> adjustSplitPointForXMLEntity t (int (length a)) \<and>
          adjustSplitPointForXMLEntity t (int (length a)) \<le> int (length a)"
      by (rule less.hyps) (use la in auto)
    then show ?thesis using ab(2) la less.prems by auto
  qed
qed

lemma adjust_at_amp:
  "0 \<le> s \<Longrightarrow> adjustSplitPointForXMLEntity t s = s \<or>
     (adjustSplitPointForXMLEntity t s < s \<and> nat (adjustSplitPointForXMLEntity t s) < length t \<and>
      t ! nat (adjustSplitPointForXMLEntity t s) = amp)"
proof (induction "nat s" arbitrary: s rule: less_induct)
  case less
  show ?case
  proof (cases "0 < s \<and> amp \<in> set (take (nat s) t)")
    case False
    then show ?thesis by (simp add: adjust_stop)
  next
    case True
    then obtain a b where ab: "take (nat s) t = a @ amp # b"
      "adjustSplitPointForXMLEntity t s =
       (if semicolon \<in> set b then s else adjustSplitPointForXMLEntity t (int (length a)))"
      using adjust_cases[of s t] by metis
    from take_prefix_length[OF ab(1)]
    have la: "length a < nat s" "length a < length t" "t ! length a = amp" by simp_all
    have "adjustSplitPointForXMLEntity t (int (length a)) = int (length a) \<or>
     (adjustSplitPointForXMLEntity t (int (length a)) < int (length a) \<and>
      nat (adjustSplitPointForXMLEntity t (int (length a))) < length t \<and>
      t ! nat (adjustSplitPointForXMLEntity t (int (length a))) = amp)"
      by (rule less.hyps) (use la in auto)
    then show ?thesis using ab(2) la by auto
  qed
qed

lemma adjust_entities_whole:
  "entities_whole t \<Longrightarrow> 0 \<le> s \<Longrightarrow> entities_whole (take (nat (adjustSplitPointForXMLEntity t s)) t)"
proof (induction "nat s" arbitrary: s rule: less_induct)
  case less
  show ?case
  proof (cases "0 < s \<and> amp \<in> set (take (nat s) t)")
    case False
    then have "adjustSplitPointForXMLEntity t s = s" by (simp add: adjust_stop)
    moreover have "entities_whole (take (nat s) t)"
      using False by (cases "0 < s") (auto simp: entities_whole_no_amp)
    ultimately show ?thesis by simp
  next
    case True
    then obtain a b where ab: "take (nat s) t = a @ amp # b" "amp \<notin> set b"
      "adjustSplitPointForXMLEntity t s =
       (if semicolon \<in> set b then s else adjustSplitPointForXMLEntity t (int (length a)))"
      using adjust_cases[of s t] by metis
    from take_prefix_length[OF ab(1)] have la: "length a < nat s" by simp
    show ?thesis
    proof (cases "semicolon \<in> set b")
      case False
      have "entities_whole (take (nat (adjustSplitPointForXMLEntity t (int (length a)))) t)"
        by (rule less.hyps) (use la less.prems in auto)
      then show ?thesis using ab(3) False by simp
    next
      case semi: True
      have "t = (a @ amp # b) @ drop (nat s) t" using ab(1) by (metis append_take_drop_id)
      then have "entities_whole (a @ amp # (b @ drop (nat s) t))" using less.prems(1) by simp
      then have "entities_whole a" "entities_whole (amp # b @ drop (nat s) t)"
        by (simp_all only: entities_whole_split)
      from this(1) entities_whole_last_closed[OF this(2) semi ab(2)]
      have "entities_whole (a @ amp # b)" by (simp only: entities_whole_split)
      then show ?thesis using ab(1,3) semi by simp
    qed
  qed
qed

lemma adjust_zero:
  "0 < s \<Longrightarrow> nat s \<le> length t \<Longrightarrow> adjustSplitPointForXMLEntity t s = 0 \<Longrightarrow>
     t ! 0 = amp \<and> semicolon \<notin> set (take (nat s) t)"
proof (induction "nat s" arbitrary: s rule: less_induct)
  case less
  show ?case
  proof (cases "amp \<in> set (take (nat s) t)")
    case False
    then show ?thesis using less.prems by (simp add: adjust_stop)
  next
    case True
    then obtain a b where ab: "take (nat s) t = a @ amp # b" "amp \<notin> set b"
      "adjustSplitPointForXMLEntity t s =
       (if semicolon \<in> set b then s else adjustSplitPointForXMLEntity t (int (length a)))"
      using adjust_cases[of s t] less.prems(1) by metis
    from take_prefix_length[OF ab(1)]
    have la: "length a < nat s" "length a < length t" "t ! length a = amp" "take (length a) t = a"
      by simp_all
    from ab(3) less.prems have nosemi: "semicolon \<notin> set b"
      and rec: "adjustSplitPointForXMLEntity t (int (length a)) = 0" by (auto split: if_splits)
    have sa: "semicolon \<noteq> amp" by (simp add: semicolon_def amp_def)
    show ?thesis
    proof (cases "a = []")
      case True
      then show ?thesis using la ab(1) nosemi sa by simp
    next
      case False
      have "t ! 0 = amp \<and> semicolon \<notin> set (take (nat (int (length a))) t)"
        by (rule less.hyps) (use la False rec in auto)
      then show ?thesis using la(4) ab(1) nosemi sa by simp
    qed
  qed
qed

lemma split_loop_eval:
  "split_loop t L res =
     (if length t > L
      then split_loop (drop (split_point t L) t) L
             (if TrimSpace (take (split_point t L) t) \<noteq> [] then res @ [TrimSpace (take (split_point t L) t)] else res)
      else (if TrimSpace t \<noteq> [] then res @ [TrimSpace t] else res))"
  by (subst split_loop.simps) (simp add: split_point_def Let_def)

lemma adjust_eval:
  "adjustSplitPointForXMLEntity t s =
     (if s > 0 \<and> amp \<in> set (take (nat s) t)
      then (if semicolon \<in> set (drop (nat (LastIndex (take (nat s) t) amp)) (take (nat s) t)) then s
            else adjustSplitPointForXMLEntity t (LastIndex (take (nat s) t) amp))
      else s)"
  by (subst adjustSplitPointForXMLEntity.simps) (simp add: Let_def)

lemma split_point_pos: "1 \<le> split_point t L"
  by (auto simp: split_point_def Let_def)

lemma findSafe_loop_le: "findSafe_loop seg n \<le> n"
  by (induction n) auto

lemma findSafe_loop_Valid: "Valid (take (findSafe_loop seg n) seg)"
  by (induction n) (auto simp: Valid_Nil)

lemma findSafe_loop_max: "k \<le> n \<Longrightarrow> Valid (take k seg) \<Longrightarrow> k \<le> findSafe_loop seg n"
  by (induction n) (auto simp: le_Suc_eq)

lemma findLast_cases:
  assumes "L \<le> length t"
  shows "findLastNewlineOrSpaceWithinLimit t L < 0 \<or>
     (\<exists>c. (c = newline \<or> c = space) \<and> findLastNewlineOrSpaceWithinLimit t L < int L \<and>
          0 \<le> findLastNewlineOrSpaceWithinLimit t L \<and> t ! nat (findLastNewlineOrSpaceWithinLimit t L) = c)"
proof (cases "newline \<in> set (take L t)")
  case True
  from LastIndex_nth[OF True] assms
  show ?thesis by (auto simp: findLastNewlineOrSpaceWithinLimit_def Let_def)
next
  case nl: False
  show ?thesis
  proof (cases "space \<in> set (take L t)")
    case True
    from LastIndex_nth[OF True] LastIndex_neg[OF nl] assms
    show ?thesis by (auto simp: findLastNewlineOrSpaceWithinLimit_def Let_def)
  next
    case False
    with nl show ?thesis
      by (simp add: findLastNewlineOrSpaceWithinLimit_def Let_def LastIndex_neg)
  qed
qed

lemma ascii_not_cont: "byte c < 0x80 \<Longrightarrow> \<not> is_cont c"
  by (simp add: is_cont_def)

lemma byte_special: "byte newline = 10" "byte space = 32" "byte amp = 38" "byte semicolon = 59"
  by (simp_all add: byte_def newline_def space_def amp_def semicolon_def)

lemma tail_chars: "t \<in> set entity_tails \<Longrightarrow> c \<in> set t \<Longrightarrow> c \<noteq> newline \<and> c \<noteq> space"
  by (auto simp: entity_tails_def newline_def space_def)

lemma tail_length: "t \<in> set entity_tails \<Longrightarrow> length t \<le> 4 \<and> t \<noteq> [] \<and> last t = semicolon"
  by (auto simp: entity_tails_def semicolon_def)

lemma amp_head_semicolon:
  assumes "entities_whole t" "t \<noteq> []" "t ! 0 = amp" "semicolon \<notin> set (take n t)" "0 < n"
  shows "n < 5 \<and> n < length t \<and> t ! n \<noteq> newline \<and> t ! n \<noteq> space"
proof -
  from assms(2,3) obtain u where u: "t = amp # u" by (cases t) auto
  with assms(1) obtain tl where tl: "tl \<in> set entity_tails" "prefix tl u"
    by (auto simp: list_ex_iff)
  then obtain r where r: "u = tl @ r" by (auto simp: prefix_def)
  from tail_length[OF tl(1)] have len: "length tl \<le> 4" "tl \<noteq> []" "last tl = semicolon" by auto
  have lt: "n - 1 < length tl"
  proof (rule ccontr)
    assume "\<not> n - 1 < length tl"
    then have "set tl \<subseteq> set (take n t)"
      using assms(5) by (cases n) (auto simp: u r)
    moreover have "semicolon \<in> set tl" using len by (metis last_in_set)
    ultimately show False using assms(4) by auto
  qed
  then have "t ! n = tl ! (n - 1)" using assms(5) by (cases n) (auto simp: u r nth_append)
  moreover have "tl ! (n - 1) \<in> set tl" using lt by simp
  ultimately have "t ! n \<noteq> newline \<and> t ! n \<noteq> space" using tail_chars[OF tl(1)] by metis
  moreover have "n < 5" using lt len by simp
  moreover have "n < length t" using lt assms(5) by (simp add: u r)
  ultimately show ?thesis by simp
qed

lemma split_point_props:
  assumes v: "Valid t" and e: "entities_whole t" and L: "16 < L" and len: "L < length t"
  shows "split_point t L \<le> L \<and> Valid (take (split_point t L) t) \<and> Valid (drop (split_point t L) t)
     \<and> entities_whole (take (split_point t L) t) \<and> entities_whole (drop (split_point t L) t)"
proof -
  define s0 where "s0 = findLastNewlineOrSpaceWithinLimit t L"
  define s1 where "s1 = (if s0 < 0 then findSafeUTF8SplitPoint (take L t) else s0)"
  define s2 where "s2 = adjustSplitPointForXMLEntity t s1"
  define k where "k = nat (if s2 \<le> 0 then 1 else s2)"
  have k_eq: "split_point t L = k"
    by (simp add: split_point_def Let_def s0_def s1_def s2_def k_def)
  have ne: "t \<noteq> []" using len by auto
  text \<open>the first candidate\<close>
  have s1_props: "0 \<le> s1 \<and> s1 \<le> int L \<and>
     ((s1 < int L \<and> (t ! nat s1 = newline \<or> t ! nat s1 = space)) \<or> (5 \<le> s1 \<and> Valid (take (nat s1) t)))"
  proof (cases "s0 < 0")
    case True
    then have s1: "s1 = int (findSafe_loop (take L t) L)"
      using len by (simp add: s1_def findSafeUTF8SplitPoint_def min_def)
    from Valid_boundary_near[OF v, of 5] len L obtain b where
      b: "5 \<le> b" "b \<le> 8" "Valid (take b t)" by auto
    then have "Valid (take b (take L t))" using L by (simp add: min_def)
    from findSafe_loop_max[OF _ this, of L] b L have "5 \<le> findSafe_loop (take L t) L" by simp
    moreover have "Valid (take (findSafe_loop (take L t) L) t)"
      using findSafe_loop_Valid[of "take L t" L] findSafe_loop_le[of "take L t" L]
      by (simp add: min_def)
    ultimately show ?thesis using s1 findSafe_loop_le[of "take L t" L] by simp
  next
    case False
    then have "s1 = s0" by (simp add: s1_def)
    with findLast_cases[of L t] len False show ?thesis by (auto simp: s0_def)
  qed
  have s2_range: "0 \<le> s2" "s2 \<le> s1"
    using adjust_range[of s1 t] s1_props by (simp_all add: s2_def)
  have kL: "k \<le> L" using s2_range s1_props L by (auto simp: k_def)
  have klen: "k < length t" using kL len by simp
  have k1: "1 \<le> k" by (auto simp: k_def)
  text \<open>a split forced to one byte falls after an ASCII byte\<close>
  have zero: "t ! 0 = newline \<or> t ! 0 = space" if "s2 = 0"
  proof (cases "s1 = 0")
    case True
    then show ?thesis using s1_props by auto
  next
    case False
    then have pos: "0 < s1" using s1_props by simp
    have "nat s1 \<le> length t" using s1_props len by linarith
    from adjust_zero[OF pos this] that
    have a: "t ! 0 = amp" "semicolon \<notin> set (take (nat s1) t)" by (simp_all add: s2_def)
    from amp_head_semicolon[OF e ne a] pos
    have "nat s1 < 5" "t ! nat s1 \<noteq> newline" "t ! nat s1 \<noteq> space" by simp_all
    with s1_props show ?thesis by auto
  qed
  have valid: "Valid (take k t) \<and> Valid (drop k t)"
  proof (cases "s2 = 0")
    case True
    then have k: "k = 1" by (simp add: k_def)
    from zero[OF True] have "byte (t ! 0) < 0x80" by (auto simp: byte_special)
    moreover have "take 1 t = [t ! 0]" using ne by (cases t) auto
    ultimately have "Valid (take 1 t)" using ascii_Valid[of "[t ! 0]"] by simp
    with Valid_drop_of_take[OF v this] k show ?thesis by simp
  next
    case False
    then have k: "k = nat s2" "0 < s2" using s2_range by (simp_all add: k_def)
    from adjust_at_amp[of s1 t] s1_props
    consider "s2 = s1" | "t ! nat s2 = amp" by (auto simp: s2_def)
    then show ?thesis
    proof cases
      case 1
      from s1_props consider (ws) "t ! nat s1 = newline \<or> t ! nat s1 = space"
        | (safe) "Valid (take (nat s1) t)" by auto
      then show ?thesis
      proof cases
        case ws
        then have "\<not> is_cont (t ! k)" using 1 k by (auto simp: ascii_not_cont byte_special)
        with Valid_take_drop[OF v, of k] klen show ?thesis by simp
      next
        case safe
        with Valid_drop_of_take[OF v, of k] 1 k show ?thesis by simp
      qed
    next
      case 2
      then have "\<not> is_cont (t ! k)" using k by (simp add: ascii_not_cont byte_special)
      with Valid_take_drop[OF v, of k] klen show ?thesis by simp
    qed
  qed
  have ents: "entities_whole (take k t)"
  proof (cases "s2 = 0")
    case True
    then have k: "k = 1" by (simp add: k_def)
    have "take 1 t = [t ! 0]" using ne by (cases t) auto
    moreover have "t ! 0 \<noteq> amp" using zero[OF True] by (auto simp: newline_def space_def amp_def)
    ultimately show ?thesis using k by simp
  next
    case False
    then have "k = nat s2" using s2_range by (simp add: k_def)
    with adjust_entities_whole[OF e, of s1] s1_props show ?thesis by (simp add: s2_def)
  qed
  have "entities_whole (drop k t)"
    using entities_whole_suffix[of "take k t" "drop k t"] e by simp
  with kL valid ents show ?thesis by (simp add: k_eq)
qed

lemma entities_whole_amps_closed: "entities_whole c \<Longrightarrow> amps_closed c"
proof (induction c)
  case Nil
  then show ?case by simp
next
  case (Cons a c)
  have "semicolon \<in> set c" if "a = amp"
  proof -
    from that Cons.prems obtain t where t: "t \<in> set entity_tails" "prefix t c"
      by (auto simp: list_ex_iff)
    from tail_length[OF t(1)] have "semicolon \<in> set t" by (metis last_in_set)
    with t(2) show ?thesis by (auto simp: prefix_def)
  qed
  with Cons show ?case by simp
qed

lemma not_space_byte_semicolon: "\<not> space_byte semicolon"
  by (simp add: space_byte_def byte_special)

lemma TrimSpace_middle:
  "\<exists>l r. p = l @ TrimSpace p @ r \<and> all_space l \<and> all_space r"
proof -
  obtain i where i: "TrimLeftSpace p = drop i p" "all_space (take i p)"
    using TrimLeftSpace_drop by blast
  obtain j where j: "TrimRightSpace (drop i p) = take j (drop i p)" "all_space (drop j (drop i p))"
    using TrimRightSpace_take by blast
  have "drop i p = take j (drop i p) @ drop j (drop i p)" by (simp only: append_take_drop_id)
  then have "p = take i p @ take j (drop i p) @ drop j (drop i p)"
    by (metis append_take_drop_id)
  then have "p = take i p @ TrimSpace p @ drop j (drop i p)" by (simp add: TrimSpace_def i j)
  with i(2) j(2) show ?thesis by blast
qed

lemma entities_whole_TrimSpace: "entities_whole p \<Longrightarrow> entities_whole (TrimSpace p)"
proof -
  assume e: "entities_whole p"
  obtain l r where lr: "p = l @ TrimSpace p @ r" "all_space r" using TrimSpace_middle by blast
  from e lr(1) have "entities_whole (TrimSpace p @ r)" using entities_whole_suffix by metis
  moreover have "semicolon \<notin> set r" using all_space_bytes[OF lr(2)] not_space_byte_semicolon by blast
  ultimately show ?thesis by (rule entities_whole_drop_semicolon_free)
qed

lemma chunk_ok_TrimSpace:
  "length p \<le> L \<Longrightarrow> Valid p \<Longrightarrow> entities_whole p \<Longrightarrow> chunk_ok L (TrimSpace p)"
  using length_TrimSpace[of p] by (simp add: chunk_ok_def Valid_TrimSpace entities_whole_TrimSpace)

lemma split_loop_chunks:
  "Valid t \<Longrightarrow> entities_whole t \<Longrightarrow> 16 < L \<Longrightarrow> \<forall>c\<in>set res. chunk_ok L c \<Longrightarrow>
     \<forall>c\<in>set (split_loop t L res). chunk_ok L c"
proof (induction "length t" arbitrary: t res rule: less_induct)
  case less
  show ?case
  proof (cases "L < length t")
    case False
    then have "chunk_ok L (TrimSpace t)" using less.prems by (intro chunk_ok_TrimSpace) auto
    then show ?thesis using False less.prems(4) by (subst split_loop_eval) auto
  next
    case True
    let ?k = "split_point t L"
    from split_point_props[OF less.prems(1,2,3) True]
    have p: "?k \<le> L" "Valid (take ?k t)" "Valid (drop ?k t)"
      "entities_whole (take ?k t)" "entities_whole (drop ?k t)" by simp_all
    have "chunk_ok L (TrimSpace (take ?k t))" using p by (intro chunk_ok_TrimSpace) auto
    then have res': "\<forall>c\<in>set (if TrimSpace (take ?k t) \<noteq> [] then res @ [TrimSpace (take ?k t)] else res). chunk_ok L c"
      using less.prems(4) by auto
    have "length (drop ?k t) < length t" using split_point_pos[of t L] True by simp
    from less.hyps[OF this p(3) p(5) less.prems(3) res']
    show ?thesis using True by (subst split_loop_eval) simp
  qed
qed

lemma Valid_concat: "(\<forall>x\<in>set xs. Valid x) \<Longrightarrow> Valid (concat xs)"
  by (induction xs) (auto simp: Valid_Nil Valid_append)

lemma Valid_RemoveIncompatibleCharacters: "Valid (RemoveIncompatibleCharacters s)"
proof -
  have "Valid [space]" using ascii_Valid[of "[space]"] by (simp add: byte_special)
  then show ?thesis
    unfolding RemoveIncompatibleCharacters_def
    by (intro Valid_concat) (auto simp: Valid_EncodeRune)
qed

lemma escape_byte_high: "0x80 \<le> byte c \<Longrightarrow> escape_byte c = [c]"
  by (auto simp: escape_byte_def byte_def)

lemma escape_byte_ascii: "byte c < 0x80 \<Longrightarrow> \<forall>x\<in>set (escape_byte c). byte x < 0x80"
  by (auto simp: escape_byte_def byte_def)

lemma EscapeXML_high: "(\<forall>c\<in>set p. 0x80 \<le> byte c) \<Longrightarrow> EscapeXML p = p"
  by (induction p) (auto simp: EscapeXML_def escape_byte_high)

lemma EscapeXML_append: "EscapeXML (a @ b) = EscapeXML a @ EscapeXML b"
  by (simp add: EscapeXML_def)

lemma Valid_EscapeXML: "Valid s \<Longrightarrow> Valid (EscapeXML s)"
proof (induction "length s" arbitrary: s rule: less_induct)
  case less
  show ?case
  proof (cases "s = []")
    case True
    then show ?thesis by (simp add: EscapeXML_def Valid_Nil)
  next
    case False
    obtain r n where d: "DecodeRune s = (r, n)" by (cases "DecodeRune s")
    from DecodeRune_size[OF False d] have n: "1 \<le> n" "n \<le> length s" by auto
    from Valid_step[OF False d] less.prems
    have ok: "\<not> (r = RuneError \<and> n = 1)" and v: "Valid (drop n s)" by auto
    have rest: "Valid (EscapeXML (drop n s))"
      by (rule less.hyps) (use n False v in auto)
    have split: "EscapeXML s = EscapeXML (take n s) @ EscapeXML (drop n s)"
      by (simp add: EscapeXML_append[symmetric])
    show ?thesis
    proof (cases "n = 1")
      case True
      with ok have "r \<noteq> RuneError" by simp
      with DecodeRune_one[of s r] d True have a: "byte (s ! 0) < 0x80" by simp
      have "take n s = [s ! 0]" using True False by (cases s) auto
      then have "EscapeXML (take n s) = escape_byte (s ! 0)" by (simp add: EscapeXML_def)
      then have "Valid (EscapeXML (take n s))" using escape_byte_ascii[OF a] ascii_Valid by simp
      then show ?thesis using rest split by (simp add: Valid_append)
    next
      case False
      with n have n2: "2 \<le> n" by simp
      have "\<forall>c\<in>set (take n s). 0x80 \<le> byte c"
      proof
        fix c assume "c \<in> set (take n s)"
        then obtain i where i: "i < n" "c = s ! i" using n by (auto simp: in_set_conv_nth)
        from DecodeRune_multi'[OF d n2] have "0xC2 \<le> byte (s ! 0)" by simp
        moreover have "0 < i \<Longrightarrow> is_cont (s ! i)" using DecodeRune_multi[OF d n2 _ i(1)] by simp
        ultimately show "0x80 \<le> byte c" using i(2) by (cases "i = 0") (auto simp: is_cont_def)
      qed
      then have "EscapeXML (take n s) = take n s" by (rule EscapeXML_high)
      then have "EscapeXML s = take n s @ EscapeXML (drop n s)" using split by simp
      then show ?thesis using Valid_rune_append[OF d ok \<open>s \<noteq> []\<close>] rest by simp
    qed
  qed
qed

lemma entities_whole_EscapeXML: "entities_whole (EscapeXML s)"
proof (induction s)
  case Nil
  then show ?case by (simp add: EscapeXML_def)
next
  case (Cons c s)
  have "EscapeXML (c # s) = escape_byte c @ EscapeXML s" by (simp add: EscapeXML_def)
  then show ?case using Cons
    by (auto simp: escape_byte_def entity_tails_def amp_def)
qed

lemma trimmed_join_Nil: "all_space w \<Longrightarrow> trimmed_join w []"
  unfolding trimmed_join_def by (intro exI[of _ "[w]"]) simp

lemma trimmed_join_Cons:
  assumes "all_space l" "trimmed_join t cs"
  shows "trimmed_join (l @ c @ t) (c # cs)"
proof -
  from assms(2) obtain ws where ws: "length ws = length cs + 1" "list_all all_space ws" "t = interleave ws cs"
    unfolding trimmed_join_def by blast
  show ?thesis unfolding trimmed_join_def
    by (intro exI[of _ "l # ws"]) (use ws assms(1) in simp)
qed

lemma trimmed_join_space:
  assumes "all_space l" "trimmed_join t cs"
  shows "trimmed_join (l @ t) cs"
proof -
  from assms(2) obtain ws where ws: "length ws = length cs + 1" "list_all all_space ws" "t = interleave ws cs"
    unfolding trimmed_join_def by blast
  then obtain w ws' where w: "ws = w # ws'" by (cases ws) auto
  have "interleave ((l @ w) # ws') cs = l @ interleave (w # ws') cs" by (cases cs) auto
  then show ?thesis unfolding trimmed_join_def
    by (intro exI[of _ "(l @ w) # ws'"]) (use ws w assms(1) in \<open>simp add: all_space_append\<close>)
qed

lemma split_loop_acc: "split_loop t L res = res @ split_loop t L []"
proof (induction "length t" arbitrary: t res rule: less_induct)
  case less
  show ?case
  proof (cases "L < length t")
    case False
    then show ?thesis by (subst (1 2) split_loop_eval) simp
  next
    case True
    let ?k = "split_point t L"
    let ?c = "TrimSpace (take ?k t)"
    have l: "length (drop ?k t) < length t" using split_point_pos[of t L] True by simp
    have a: "split_loop t L res = split_loop (drop ?k t) L (if ?c \<noteq> [] then res @ [?c] else res)"
      using True by (subst split_loop_eval) simp
    have b: "split_loop t L [] = split_loop (drop ?k t) L (if ?c \<noteq> [] then [?c] else [])"
      using True by (subst split_loop_eval) simp
    have "split_loop (drop ?k t) L (if ?c \<noteq> [] then res @ [?c] else res)
            = (if ?c \<noteq> [] then res @ [?c] else res) @ split_loop (drop ?k t) L []"
      by (rule less.hyps[OF l])
    moreover have "split_loop (drop ?k t) L (if ?c \<noteq> [] then [?c] else [])
            = (if ?c \<noteq> [] then [?c] else []) @ split_loop (drop ?k t) L []"
      by (rule less.hyps[OF l])
    ultimately show ?thesis using a b by simp
  qed
qed

lemma split_loop_trimmed_join: "trimmed_join t (split_loop t L [])"
proof (induction "length t" arbitrary: t rule: less_induct)
  case less
  show ?case
  proof (cases "L < length t")
    case False
    obtain l r where lr: "t = l @ TrimSpace t @ r" "all_space l" "all_space r"
      using TrimSpace_middle by blast
    have r: "trimmed_join r []" using lr(3) by (rule trimmed_join_Nil)
    show ?thesis
    proof (cases "TrimSpace t = []")
      case True
      then have "split_loop t L [] = []" using False by (subst split_loop_eval) simp
      moreover have "trimmed_join (l @ r) []" using trimmed_join_space[OF lr(2) r] .
      ultimately show ?thesis using lr(1) True by simp
    next
      case ne: False
      then have "split_loop t L [] = [TrimSpace t]" using False by (subst split_loop_eval) simp
      moreover have "trimmed_join (l @ TrimSpace t @ r) [TrimSpace t]"
        using trimmed_join_Cons[OF lr(2) r] .
      ultimately show ?thesis using lr(1) by simp
    qed
  next
    case True
    let ?k = "split_point t L"
    let ?p = "take ?k t"
    have l: "length (drop ?k t) < length t" using split_point_pos[of t L] True by simp
    from less.hyps[OF l] have IH: "trimmed_join (drop ?k t) (split_loop (drop ?k t) L [])" .
    obtain l r where lr: "?p = l @ TrimSpace ?p @ r" "all_space l" "all_space r"
      using TrimSpace_middle by blast
    have t: "t = l @ TrimSpace ?p @ r @ drop ?k t"
      using lr(1) by (metis append.assoc append_take_drop_id)
    have rr: "trimmed_join (r @ drop ?k t) (split_loop (drop ?k t) L [])"
      using trimmed_join_space[OF lr(3) IH] .
    show ?thesis
    proof (cases "TrimSpace ?p = []")
      case e: True
      then have "split_loop t L [] = split_loop (drop ?k t) L []"
        using True by (subst split_loop_eval) simp
      moreover have "trimmed_join (l @ r @ drop ?k t) (split_loop (drop ?k t) L [])"
        using trimmed_join_space[OF lr(2) rr] .
      ultimately show ?thesis using t e by simp
    next
      case ne: False
      then have "split_loop t L [] = split_loop (drop ?k t) L [TrimSpace ?p]"
        using True by (subst split_loop_eval) simp
      also have "\<dots> = TrimSpace ?p # split_loop (drop ?k t) L []"
        by (subst split_loop_acc) simp
      finally have "split_loop t L [] = TrimSpace ?p # split_loop (drop ?k t) L []" .
      moreover have "trimmed_join (l @ TrimSpace ?p @ (r @ drop ?k t)) (TrimSpace ?p # split_loop (drop ?k t) L [])"
        using trimmed_join_Cons[OF lr(2) rr] .
      ultimately show ?thesis using t by simp
    qed
  qed
qed

lemma char_of_eq_iff: "(char_of (n::nat) = c) = (n mod 256 = of_char c)"
  by (metis char_of_char of_char_of)

lemma Valid_Cons_eval: "Valid (c # cs) =
   (if fst (DecodeRune (c # cs)) = RuneError \<and> snd (DecodeRune (c # cs)) = 1 then False
    else Valid (drop (snd (DecodeRune (c # cs))) (c # cs)))"
  by (subst Valid.simps) (simp split: prod.splits)

lemma runes_Cons_eval: "runes (c # cs) =
   fst (DecodeRune (c # cs)) # runes (drop (snd (DecodeRune (c # cs))) (c # cs))"
  by (subst runes.simps) (simp split: prod.splits)

lemma TrimLeftSpace_Cons_eval: "TrimLeftSpace (c # cs) =
   (if IsSpace (fst (DecodeRune (c # cs))) then TrimLeftSpace (drop (snd (DecodeRune (c # cs))) (c # cs))
    else c # cs)"
  by (subst TrimLeftSpace.simps) (simp split: prod.splits)

lemma TrimRightSpace_Cons_eval: "TrimRightSpace (c # cs) =
   (if IsSpace (fst (DecodeLastRune (c # cs)))
    then TrimRightSpace (take (length (c # cs) - snd (DecodeLastRune (c # cs))) (c # cs))
    else c # cs)"
  by (subst TrimRightSpace.simps) (simp split: prod.splits)

text \<open>Rewrite rules that evaluate the functions on a given string.\<close>

lemmas utf8_eval = DecodeRune_def DecodeLastRune_def byte_def first_def RuneError_def IsSpace_def
  RuneStart_def is_cont_def Valid_Nil Valid_Cons_eval TrimLeftSpace_Nil TrimLeftSpace_Cons_eval
  TrimRightSpace_Nil TrimRightSpace_Cons_eval TrimSpace_def
  runes.simps[of "[]", simplified] runes_Cons_eval EncodeRune_def enc3_def char_of_eq_iff

lemmas split_eval = SplitTextByByteLength_def split_loop_eval adjust_eval split_point_def
  findLastNewlineOrSpaceWithinLimit_def findSafeUTF8SplitPoint_def LastIndex_def
  newline_def space_def amp_def semicolon_def EscapeXML_def escape_byte_def
  RemoveIncompatibleCharacters_def

section \<open>The cleaned and escaped form: lemmas\<close>

text \<open>Resolving the entities of an escaped text gives the text back.\<close>

lemma resolve_escape_byte: "resolve_entities (escape_byte c @ rest) = c # resolve_entities rest"
  by (simp add: escape_byte_def amp_def)

lemma resolve_EscapeXML: "resolve_entities (EscapeXML t) = t"
  by (induction t) (simp_all add: EscapeXML_def resolve_escape_byte)

lemma no_markup_escape_byte:
  "list_all (\<lambda>c. c \<noteq> CHR ''<'' \<and> c \<noteq> CHR ''>'' \<and> c \<noteq> CHR 0x22 \<and> c \<noteq> CHR 0x27) (escape_byte c)"
  by (simp add: escape_byte_def)

lemma escaped_text_EscapeXML: "escaped_text (EscapeXML t)"
proof -
  have "list_all (\<lambda>c. c \<noteq> CHR ''<'' \<and> c \<noteq> CHR ''>'' \<and> c \<noteq> CHR 0x22 \<and> c \<noteq> CHR 0x27) (EscapeXML t)"
    by (induction t) (simp_all add: EscapeXML_def no_markup_escape_byte)
  then show ?thesis by (simp add: escaped_text_def entities_whole_EscapeXML)
qed

lemma byte_char_of_small: "n < 256 \<Longrightarrow> byte (char_of (n::nat)) = n"
  by (simp add: byte_char_of)

lemma EncodeRune_high:
  assumes "0x7F < r"
  shows "\<forall>c\<in>set (EncodeRune r). 0x80 \<le> byte c"
proof -
  have m: "0x80 + x mod 64 < 256" "0x80 \<le> 0x80 + x mod 64" for x :: nat
    by simp_all
  have e3: "\<forall>c\<in>set (enc3 q). 0x80 \<le> byte c" if "q \<le> 0xFFFF" for q :: nat
  proof -
    have "q div 4096 < 16" using that by (simp add: div_less_iff_less_mult)
    then have "0xE0 + q div 4096 < 256" by simp
    then show ?thesis by (simp add: enc3_def byte_char_of_small m)
  qed
  consider (two) "r \<le> 0x7FF" | (bad) "0x7FF < r" "r > 0x10FFFF \<or> (0xD800 \<le> r \<and> r \<le> 0xDFFF)"
    | (three) "0x7FF < r" "r \<le> 0xFFFF" "\<not> (r > 0x10FFFF \<or> (0xD800 \<le> r \<and> r \<le> 0xDFFF))"
    | (four) "0xFFFF < r" "r \<le> 0x10FFFF"
    by linarith
  then show ?thesis
  proof cases
    case two
    then have "r div 64 < 32" by (simp add: div_less_iff_less_mult)
    then have "0xC0 + r div 64 < 256" by simp
    then show ?thesis using assms two by (simp add: EncodeRune_def byte_char_of_small m)
  next
    case bad
    then show ?thesis using assms e3[of RuneError] by (simp add: EncodeRune_def RuneError_def)
  next
    case three
    then show ?thesis using assms e3[of r] by (auto simp: EncodeRune_def)
  next
    case four
    then have "r div 262144 < 8" by (simp add: div_less_iff_less_mult)
    then have "0xF0 + r div 262144 < 256" by simp
    then show ?thesis using assms four by (simp add: EncodeRune_def byte_char_of_small m)
  qed
qed

lemma cleaned_form_EncodeRune:
  "cleaned_form (EncodeRune r) = (if control_code r then [space] else EncodeRune r)"
proof (cases "r \<le> 0x7F")
  case True
  then show ?thesis by (simp add: cleaned_form_def EncodeRune_def byte_char_of_small)
next
  case False
  then have h: "\<forall>c\<in>set (EncodeRune r). 0x80 \<le> byte c" by (intro EncodeRune_high) simp
  have "\<not> control_code r" using False by (simp add: control_code_def)
  moreover have "cleaned_form (EncodeRune r) = EncodeRune r"
    unfolding cleaned_form_def using h by (intro map_idI) (auto simp: control_code_def)
  ultimately show ?thesis by simp
qed

lemma cleaned_form_append: "cleaned_form (a @ b) = cleaned_form a @ cleaned_form b"
  by (simp add: cleaned_form_def)

lemma RemoveIncompatibleCharacters_cleaned:
  "RemoveIncompatibleCharacters s = cleaned_form (range_read s)"
proof -
  have "cleaned_form (concat (map EncodeRune rs)) =
          concat (map (\<lambda>code. if control_code code then [space] else EncodeRune code) rs)" for rs
    by (induction rs) (simp_all add: cleaned_form_append cleaned_form_EncodeRune, simp add: cleaned_form_def)
  then show ?thesis
    by (simp add: RemoveIncompatibleCharacters_def range_read_def control_code_def)
qed

text \<open>
  The digits of a rune in base 64, and the encoding of a rune that was decoded from a
  valid encoding: the bytes it was decoded from.
\<close>

lemma split2:
  fixes a x :: nat
  assumes "x < 64"
  shows "(a * 64 + x) div 64 = a" "(a * 64 + x) mod 64 = x"
  using assms by simp_all

lemma split3:
  fixes a x y :: nat
  assumes "x < 64" "y < 64"
  shows "(a * 4096 + x * 64 + y) div 4096 = a"
    "((a * 4096 + x * 64 + y) div 64) mod 64 = x"
    "(a * 4096 + x * 64 + y) mod 64 = y"
proof -
  have e: "a * 4096 + x * 64 + y = (a * 64 + x) * 64 + y" by simp
  have d: "(a * 4096 + x * 64 + y) div 64 = a * 64 + x"
    unfolding e using assms by simp
  show "((a * 4096 + x * 64 + y) div 64) mod 64 = x" by (simp only: d mod_mult_self3 mod_less assms)
  show "(a * 4096 + x * 64 + y) mod 64 = y" by (simp only: e mod_mult_self3 mod_less assms)
  have "(a * 4096 + x * 64 + y) div 4096 = ((a * 4096 + x * 64 + y) div 64) div 64"
    by (simp add: div_mult2_eq)
  then show "(a * 4096 + x * 64 + y) div 4096 = a" unfolding d using assms by simp
qed

lemma split4:
  fixes a x y z :: nat
  assumes "x < 64" "y < 64" "z < 64"
  shows "(a * 262144 + x * 4096 + y * 64 + z) div 262144 = a"
    "((a * 262144 + x * 4096 + y * 64 + z) div 4096) mod 64 = x"
    "((a * 262144 + x * 4096 + y * 64 + z) div 64) mod 64 = y"
    "(a * 262144 + x * 4096 + y * 64 + z) mod 64 = z"
proof -
  let ?r = "a * 262144 + x * 4096 + y * 64 + z"
  have e: "?r = ((a * 64 + x) * 64 + y) * 64 + z" by simp
  have d1: "?r div 64 = (a * 64 + x) * 64 + y" unfolding e using assms by simp
  show "?r mod 64 = z" by (simp only: e mod_mult_self3 mod_less assms)
  show "(?r div 64) mod 64 = y" by (simp only: d1 mod_mult_self3 mod_less assms)
  have "?r div 4096 = (?r div 64) div 64" by (simp add: div_mult2_eq)
  then have d2: "?r div 4096 = a * 64 + x" unfolding d1 using assms by simp
  show "(?r div 4096) mod 64 = x" by (simp only: d2 mod_mult_self3 mod_less assms)
  have "?r div 262144 = (?r div 4096) div 64" by (simp add: div_mult2_eq)
  then show "?r div 262144 = a" unfolding d2 using assms by simp
qed

lemma mod_base: "a < m \<Longrightarrow> (k * m + a) mod m = (a::nat)"
  by simp

lemma rt2:
  fixes b0 b1 :: nat
  assumes "0xC2 \<le> b0" "b0 \<le> 0xDF" "0x80 \<le> b1" "b1 \<le> 0xBF"
  shows "EncodeRune ((b0 mod 32) * 64 + b1 mod 64) = [char_of b0, char_of b1]"
proof -
  obtain a where a: "b0 = 6 * 32 + a" "2 \<le> a" "a < 32"
    using assms(1,2) by (intro that[of "b0 - 192"]) simp_all
  obtain x where x: "b1 = 2 * 64 + x" "x < 64"
    using assms(3,4) by (intro that[of "b1 - 128"]) simp_all
  have m0: "b0 mod 32 = a" unfolding a(1) using a(3) by (simp only: mod_mult_self3 mod_less)
  have m1: "b1 mod 64 = x" unfolding x(1) using x(2) by (simp only: mod_mult_self3 mod_less)
  have lo: "0x7F < a * 64 + x" using a(2) by simp
  have hi: "a * 64 + x \<le> 0x7FF" using a(3) x(2) by simp
  have "EncodeRune (a * 64 + x) = [char_of (0xC0 + a), char_of (0x80 + x)]"
    using lo hi x(2) a(3) by (simp add: EncodeRune_def split2[OF x(2)])
  then show ?thesis unfolding m0 m1 by (simp add: a(1) x(1))
qed

lemma rt3:
  fixes b0 b1 b2 :: nat
  assumes "first b0 = Some (3, lo, hi)" "lo \<le> b1" "b1 \<le> hi" "0x80 \<le> b2" "b2 \<le> 0xBF"
  shows "EncodeRune ((b0 mod 16) * 4096 + (b1 mod 64) * 64 + b2 mod 64)
           = [char_of b0, char_of b1, char_of b2]"
proof -
  from assms(1) have b0: "0xE0 \<le> b0" "b0 \<le> 0xEF"
    and lh: "0x80 \<le> lo" "hi \<le> 0xBF" "b0 = 0xE0 \<longrightarrow> lo = 0xA0" "b0 = 0xED \<longrightarrow> hi = 0x9F"
    by (auto simp: first_def split: if_splits)
  obtain a where a: "b0 = 14 * 16 + a" "a < 16"
    using b0 by (intro that[of "b0 - 224"]) simp_all
  obtain x where x: "b1 = 2 * 64 + x" "x < 64"
    using assms(2,3) lh(1,2) by (intro that[of "b1 - 128"]) simp_all
  obtain y where y: "b2 = 2 * 64 + y" "y < 64"
    using assms(4,5) by (intro that[of "b2 - 128"]) simp_all
  have m0: "b0 mod 16 = a" unfolding a(1) using a(2) by (simp only: mod_mult_self3 mod_less)
  have m1: "b1 mod 64 = x" unfolding x(1) using x(2) by (simp only: mod_mult_self3 mod_less)
  have m2: "b2 mod 64 = y" unfolding y(1) using y(2) by (simp only: mod_mult_self3 mod_less)
  have x0: "a = 0 \<longrightarrow> 32 \<le> x" using lh(3) assms(2) a(1) x(1) by auto
  have x13: "a = 13 \<longrightarrow> x < 32" using lh(4) assms(3) a(1) x(1) by auto
  let ?r = "a * 4096 + x * 64 + y"
  have lo: "0x7FF < ?r"
  proof (cases "a = 0")
    case True
    then show ?thesis using x0 by simp
  next
    case False
    then have "1 \<le> a" by simp
    then have "4096 \<le> a * 4096" by simp
    then show ?thesis by simp
  qed
  have "a * 4096 \<le> 15 * 4096" using a(2) by simp
  then have hi: "?r \<le> 0xFFFF" using x(2) y(2) by simp
  have ns: "\<not> (0xD800 \<le> ?r \<and> ?r \<le> 0xDFFF)"
  proof
    assume s: "0xD800 \<le> ?r \<and> ?r \<le> 0xDFFF"
    have "?r div 4096 = a" by (rule split3(1)[OF x(2) y(2)])
    moreover have "?r div 4096 = 13"
    proof -
      have "13 * 4096 \<le> ?r" "?r < 14 * 4096" using s by simp_all
      then show ?thesis by (simp add: div_nat_eqI)
    qed
    ultimately have a13: "a = 13" by simp
    then have "x < 32" using x13 by simp
    then have "?r < 0xD800" using a13 y(2) by simp
    then show False using s by simp
  qed
  have "EncodeRune ?r = [char_of (0xE0 + a), char_of (0x80 + x), char_of (0x80 + y)]"
    using lo hi ns x(2) y(2) a(2) by (auto simp: EncodeRune_def enc3_def split3[OF x(2) y(2)])
  then show ?thesis unfolding m0 m1 m2 by (simp add: a(1) x(1) y(1))
qed

lemma rt4:
  fixes b0 b1 b2 b3 :: nat
  assumes "first b0 = Some (4, lo, hi)" "lo \<le> b1" "b1 \<le> hi" "0x80 \<le> b2" "b2 \<le> 0xBF"
    "0x80 \<le> b3" "b3 \<le> 0xBF"
  shows "EncodeRune ((b0 mod 8) * 262144 + (b1 mod 64) * 4096 + (b2 mod 64) * 64 + b3 mod 64)
           = [char_of b0, char_of b1, char_of b2, char_of b3]"
proof -
  from assms(1) have b0: "0xF0 \<le> b0" "b0 \<le> 0xF4"
    and lh: "0x80 \<le> lo" "hi \<le> 0xBF" "b0 = 0xF0 \<longrightarrow> lo = 0x90" "b0 = 0xF4 \<longrightarrow> hi = 0x8F"
    by (auto simp: first_def split: if_splits)
  obtain a where a: "b0 = 30 * 8 + a" "a \<le> 4"
    using b0 by (intro that[of "b0 - 240"]) simp_all
  obtain x where x: "b1 = 2 * 64 + x" "x < 64"
    using assms(2,3) lh(1,2) by (intro that[of "b1 - 128"]) simp_all
  obtain y where y: "b2 = 2 * 64 + y" "y < 64"
    using assms(4,5) by (intro that[of "b2 - 128"]) simp_all
  obtain z where z: "b3 = 2 * 64 + z" "z < 64"
    using assms(6,7) by (intro that[of "b3 - 128"]) simp_all
  have a8: "a < 8" using a(2) by simp
  have m0: "b0 mod 8 = a" unfolding a(1) using a8 by (simp only: mod_mult_self3 mod_less)
  have m1: "b1 mod 64 = x" unfolding x(1) using x(2) by (simp only: mod_mult_self3 mod_less)
  have m2: "b2 mod 64 = y" unfolding y(1) using y(2) by (simp only: mod_mult_self3 mod_less)
  have m3: "b3 mod 64 = z" unfolding z(1) using z(2) by (simp only: mod_mult_self3 mod_less)
  have x0: "a = 0 \<longrightarrow> 16 \<le> x" using lh(3) assms(2) a(1) x(1) by auto
  have x4: "a = 4 \<longrightarrow> x < 16" using lh(4) assms(3) a(1) x(1) by auto
  let ?r = "a * 262144 + x * 4096 + y * 64 + z"
  have lo: "0xFFFF < ?r"
  proof (cases "a = 0")
    case True
    then have "16 * 4096 \<le> x * 4096" using x0 by simp
    then show ?thesis by simp
  next
    case False
    then have "1 \<le> a" by simp
    then have "262144 \<le> a * 262144" by simp
    then show ?thesis by simp
  qed
  have hi: "?r \<le> 0x10FFFF"
  proof (cases "a = 4")
    case True
    then have "x * 4096 \<le> 15 * 4096" using x4 by simp
    then show ?thesis using True y(2) z(2) by simp
  next
    case False
    then have "a \<le> 3" using a(2) by simp
    then have "a * 262144 \<le> 3 * 262144" by simp
    moreover have "x * 4096 \<le> 63 * 4096" using x(2) by simp
    ultimately show ?thesis using y(2) z(2) by simp
  qed
  have "EncodeRune ?r = [char_of (0xF0 + a), char_of (0x80 + x), char_of (0x80 + y), char_of (0x80 + z)]"
    using lo hi x(2) y(2) z(2) a(2) by (simp add: EncodeRune_def split4[OF x(2) y(2) z(2)])
  then show ?thesis unfolding m0 m1 m2 m3 by (simp add: a(1) x(1) y(1) z(1))
qed

lemma take2: "2 \<le> length p \<Longrightarrow> take 2 p = [p ! 0, p ! 1]"
  by (cases p; cases "tl p") (auto simp: numeral_2_eq_2)

lemma take3: "3 \<le> length p \<Longrightarrow> take 3 p = [p ! 0, p ! 1, p ! 2]"
  by (cases p; cases "tl p"; cases "tl (tl p)") (auto simp: numeral_3_eq_3 numeral_2_eq_2)

lemma take4: "4 \<le> length p \<Longrightarrow> take 4 p = [p ! 0, p ! 1, p ! 2, p ! 3]"
  by (cases p; cases "tl p"; cases "tl (tl p)"; cases "tl (tl (tl p))")
     (auto simp: numeral_3_eq_3 numeral_2_eq_2 eval_nat_numeral)

lemma char_of_byte: "char_of (byte c) = c"
  by (simp add: byte_def)

lemma EncodeRune_DecodeRune:
  assumes "DecodeRune p = (r, n)" "p \<noteq> []" "\<not> (r = RuneError \<and> n = 1)"
  shows "EncodeRune r = take n p"
proof -
  from DecodeRune_cases[OF assms(1,2)] assms(3)
  consider (ascii) "n = 1" "byte (p ! 0) < 0x80" "r = byte (p ! 0)"
    | (multi) "multi_at n p" "r = rune_of n p"
    by blast
  then show ?thesis
  proof cases
    case ascii
    have "take 1 p = [p ! 0]" using assms(2) by (cases p) simp_all
    then show ?thesis using ascii by (simp add: EncodeRune_def char_of_byte)
  next
    case multi
    then obtain lo hi where f: "first (byte (p ! 0)) = Some (n, lo, hi)" and len: "n \<le> length p"
      and b1: "lo \<le> byte (p ! 1)" "byte (p ! 1) \<le> hi"
      and c2: "3 \<le> n \<longrightarrow> is_cont (p ! 2)" and c3: "4 \<le> n \<longrightarrow> is_cont (p ! 3)"
      by (auto simp: multi_at_def)
    from first_Some[OF f] have n: "2 \<le> n" "n \<le> 4" and b0: "0xC2 \<le> byte (p ! 0)"
      and lh: "0x80 \<le> lo" "hi \<le> 0xBF" by simp_all
    consider "n = 2" | "n = 3" | "n = 4" using n by linarith
    then show ?thesis
    proof cases
      case 1
      have "byte (p ! 0) \<le> 0xDF" using f 1 by (auto simp: first_def split: if_splits)
      from rt2[OF b0 this, of "byte (p ! 1)"] b1 lh
      have "EncodeRune (rune_of 2 p) = [p ! 0, p ! 1]"
        by (simp add: rune_of_def char_of_byte)
      then show ?thesis using 1 multi(2) len by (simp add: take2)
    next
      case 2
      from rt3[OF f[unfolded 2] b1, of "byte (p ! 2)"] c2 2
      have "EncodeRune (rune_of 3 p) = [p ! 0, p ! 1, p ! 2]"
        by (simp add: rune_of_def char_of_byte is_cont_def)
      then show ?thesis using 2 multi(2) len by (simp add: take3)
    next
      case 3
      from rt4[OF f[unfolded 3] b1, of "byte (p ! 2)" "byte (p ! 3)"] c2 c3 3
      have "EncodeRune (rune_of 4 p) = [p ! 0, p ! 1, p ! 2, p ! 3]"
        by (simp add: rune_of_def char_of_byte is_cont_def)
      then show ?thesis using 3 multi(2) len by (simp add: take4)
    qed
  qed
qed

lemma range_read_Valid: "Valid s \<Longrightarrow> range_read s = s"
proof (induction "length s" arbitrary: s rule: less_induct)
  case less
  show ?case
  proof (cases "s = []")
    case True
    then show ?thesis by (simp add: range_read_def runes.simps)
  next
    case False
    obtain r n where d: "DecodeRune s = (r, n)" by (cases "DecodeRune s") auto
    from Valid_step[OF False d] less.prems
    have ok: "\<not> (r = RuneError \<and> n = 1)" and v: "Valid (drop n s)" by simp_all
    from DecodeRune_size[OF False d] have n: "1 \<le> n" "n \<le> length s" by simp_all
    then have "length (drop n s) < length s" using False by simp
    from less.hyps[OF this v] have ih: "range_read (drop n s) = drop n s" .
    have "runes s = r # runes (drop n s)" using False d by (subst runes.simps) simp
    then have "range_read s = EncodeRune r @ range_read (drop n s)"
      by (simp add: range_read_def)
    also have "\<dots> = take n s @ drop n s"
      using EncodeRune_DecodeRune[OF d False ok] ih by simp
    finally show ?thesis by simp
  qed
qed

section \<open>The claims on the text preparation\<close>

text \<open>
  Claim C2. For every input string \<open>s\<close> (a UTF-8 string or not: the cleaning writes
  valid UTF-8 in either case) and every byte budget \<open>L > 16\<close>, every chunk that the
  pipeline of \<open>NewCommunicate\<close> emits (cleaning of control characters, XML escaping,
  \<open>SplitTextByByteLength\<close>) is at most \<open>L\<close> bytes long, is valid UTF-8, and cuts no XML
  entity: every \<open>&\<close> of the chunk starts one of the entities of the escaping, whole
  within the chunk, so it is followed by its \<open>;\<close> in the same chunk.
\<close>

theorem split_chunks_bounded:
  assumes "16 < L"
  shows "\<forall>c\<in>set (SplitTextByByteLength (EscapeXML (RemoveIncompatibleCharacters s)) L).
           int (length c) \<le> L \<and> Valid c \<and> entities_whole c \<and> amps_closed c"
proof -
  let ?T = "EscapeXML (RemoveIncompatibleCharacters s)"
  have "Valid ?T" by (intro Valid_EscapeXML Valid_RemoveIncompatibleCharacters)
  moreover have "entities_whole ?T" by (rule entities_whole_EscapeXML)
  moreover have "16 < nat L" using assms by simp
  ultimately have "\<forall>c\<in>set (split_loop ?T (nat L) []). chunk_ok (nat L) c"
    by (intro split_loop_chunks) auto
  then show ?thesis using assms
    by (auto simp: SplitTextByByteLength_def chunk_ok_def entities_whole_amps_closed)
qed

theorem split_chunks_bounded_witness:
  "(16::int) < 17
   \<and> SplitTextByByteLength (EscapeXML (RemoveIncompatibleCharacters ''hello <world> again'')) 17
        = [''hello'', ''&lt;world&gt;'', ''again'']
   \<and> list_all (\<lambda>c. int (length c) \<le> 17 \<and> Valid c \<and> entities_whole c \<and> amps_closed c)
        [''hello'', ''&lt;world&gt;'', ''again'']"
proof -
  have e: "EscapeXML (RemoveIncompatibleCharacters ''hello <world> again'') = ''hello &lt;world&gt; again''"
    by (simp add: utf8_eval split_eval)
  have s: "SplitTextByByteLength ''hello &lt;world&gt; again'' 17 = [''hello'', ''&lt;world&gt;'', ''again'']"
    by (simp add: utf8_eval split_eval)
  have "(16::int) < 17" by simp
  from split_chunks_bounded[OF this, of "''hello <world> again''"]
  have "\<forall>c\<in>set [''hello'', ''&lt;world&gt;'', ''again''].
          int (length c) \<le> 17 \<and> Valid c \<and> entities_whole c \<and> amps_closed c"
    by (simp only: e s)
  then have "list_all (\<lambda>c. int (length c) \<le> 17 \<and> Valid c \<and> entities_whole c \<and> amps_closed c)
        [''hello'', ''&lt;world&gt;'', ''again'']"
    by (simp only: list_all_iff)
  moreover have "SplitTextByByteLength (EscapeXML (RemoveIncompatibleCharacters ''hello <world> again'')) 17
        = [''hello'', ''&lt;world&gt;'', ''again'']"
    by (simp only: e s)
  moreover have "(16::int) < 17" by simp
  ultimately show ?thesis by blast
qed

text \<open>
  Claim C3. For every input string \<open>s\<close> and every byte budget \<open>L > 16\<close>, the chunks in
  their order, with strings of white space between them, before the first and after
  the last (\<open>w0 @ c1 @ w1 @ ... @ cn @ wn\<close>, every \<open>wi\<close> of white-space characters only),
  make up a text that is XML-escaped (it holds none of \<open>< > " '\<close> and each of its \<open>&\<close>
  starts an entity) and that stands for the cleaned form of \<open>s\<close>: resolving its entities
  gives \<open>s\<close> with every control code point of the three ranges replaced by a space and
  every other byte as it is. So the concatenation of the chunks is the escaped, cleaned
  form of \<open>s\<close> less the white space trimmed where it was cut (and at its two ends), and
  no other byte is lost, doubled or moved. The input of the text preparation is a UTF-8
  string; of a string that is not, the statement holds as \<open>range\<close> reads it, each byte
  outside a valid encoding as U+FFFD.
\<close>

theorem split_loss_preserving:
  assumes "16 < L"
  shows "\<exists>ws. length ws = length (SplitTextByByteLength (EscapeXML (RemoveIncompatibleCharacters s)) L) + 1
           \<and> list_all all_space ws
           \<and> escaped_text (interleave ws (SplitTextByByteLength (EscapeXML (RemoveIncompatibleCharacters s)) L))
           \<and> resolve_entities (interleave ws (SplitTextByByteLength (EscapeXML (RemoveIncompatibleCharacters s)) L))
               = cleaned_form (if Valid s then s else range_read s)"
proof -
  let ?T = "EscapeXML (RemoveIncompatibleCharacters s)"
  from split_loop_trimmed_join[of ?T "nat L"] assms
  obtain ws where ws: "length ws = length (SplitTextByByteLength ?T L) + 1" "list_all all_space ws"
    "?T = interleave ws (SplitTextByByteLength ?T L)"
    by (auto simp: SplitTextByByteLength_def trimmed_join_def)
  have r: "range_read s = (if Valid s then s else range_read s)"
    by (simp add: range_read_Valid)
  have "escaped_text ?T" by (rule escaped_text_EscapeXML)
  moreover have "resolve_entities ?T = cleaned_form (if Valid s then s else range_read s)"
    using r by (simp only: resolve_EscapeXML RemoveIncompatibleCharacters_cleaned)
  ultimately show ?thesis using ws by metis
qed

text \<open>
  A text with markup, an ampersand and the control character U+0001, cut in two chunks
  at a budget of 17 bytes.
\<close>

theorem split_loss_preserving_witness:
  "(16::int) < 17
   \<and> Valid (''say <hi>'' @ CHR 0x01 # ''to you & me'')
   \<and> SplitTextByByteLength
        (EscapeXML (RemoveIncompatibleCharacters (''say <hi>'' @ CHR 0x01 # ''to you & me''))) 17
        = [''say &lt;hi&gt;'', ''to you &amp; me'']
   \<and> (\<exists>ws. length ws = length [''say &lt;hi&gt;'', ''to you &amp; me''] + 1 \<and> list_all all_space ws
        \<and> escaped_text (interleave ws [''say &lt;hi&gt;'', ''to you &amp; me''])
        \<and> resolve_entities (interleave ws [''say &lt;hi&gt;'', ''to you &amp; me''])
            = ''say <hi> to you & me'')"
proof -
  let ?s = "''say <hi>'' @ CHR 0x01 # ''to you & me''"
  have v: "Valid ?s"
    by (simp add: utf8_eval)
  have e: "EscapeXML (RemoveIncompatibleCharacters ?s) = ''say &lt;hi&gt; to you &amp; me''"
    by (simp add: utf8_eval split_eval)
  have s: "SplitTextByByteLength ''say &lt;hi&gt; to you &amp; me'' 17
             = [''say &lt;hi&gt;'', ''to you &amp; me'']"
    by (simp add: utf8_eval split_eval)
  have c: "cleaned_form (if Valid ?s then ?s else range_read ?s) = ''say <hi> to you & me''"
    unfolding if_P[OF v] by (simp add: cleaned_form_def control_code_def byte_def space_def)
  have "(16::int) < 17" by simp
  from split_loss_preserving[OF this, of ?s]
  have "\<exists>ws. length ws = length [''say &lt;hi&gt;'', ''to you &amp; me''] + 1 \<and> list_all all_space ws
        \<and> escaped_text (interleave ws [''say &lt;hi&gt;'', ''to you &amp; me''])
        \<and> resolve_entities (interleave ws [''say &lt;hi&gt;'', ''to you &amp; me''])
            = ''say <hi> to you & me''"
    by (simp only: e s c)
  moreover have "SplitTextByByteLength (EscapeXML (RemoveIncompatibleCharacters ?s)) 17
        = [''say &lt;hi&gt;'', ''to you &amp; me'']"
    by (simp only: e s)
  moreover have "(16::int) < 17" by simp
  ultimately show ?thesis using v by blast
qed

section \<open>The session engine: lemmas\<close>

lemma parseMetadata_loop_dropWhile:
  "parseMetadata_loop u st metas =
     (case dropWhile (\<lambda>m. Meta_Type m = ''SessionEnd'') metas of
        [] \<Rightarrow> Inl ErrUnexpectedResponse
      | m # rest \<Rightarrow>
          if boundary_type (Meta_Type m)
          then Inr \<lparr>Type = Meta_Type m, Data = [], Duration = Data_Duration m,
                    Offset = Data_Offset m + OffsetCompensation st, Text = u (Data_Text_Text m)\<rparr>
          else Inl ErrUnknownResponse)"
  by (induction metas) (auto simp: boundary_type_def Let_def)





lemma boundary_offsets_Nil [simp]: "boundary_offsets [] = []"
  by (simp add: boundary_offsets_def)

lemma boundary_offsets_append: "boundary_offsets (a @ b) = boundary_offsets a @ boundary_offsets b"
  by (simp add: boundary_offsets_def)

lemma post_error: "session_post lb st ([], Some e, st)"
  by (simp add: session_post_def)

lemma post_skip:
  "session_post lb st r \<Longrightarrow> \<not> boundary_type (Type c) \<Longrightarrow> session_post lb st (emit c r)"
  by (cases r) (auto simp: session_post_def emit_def boundary_offsets_def)

lemma post_boundary:
  assumes "session_post off (st\<lparr>LastDurationOffset := off + OffsetCompensation st + dur\<rparr>) r"
    and "boundary_type (Type c)" "Offset c = off + OffsetCompensation st" "lb \<le> off" "0 \<le> dur"
  shows "session_post lb st (emit c r)"
proof -
  obtain cs e st' where r: "r = (cs, e, st')" by (cases r)
  let ?x = "off + OffsetCompensation st"
  from assms(1) r have
    s: "sorted (boundary_offsets cs)"
    and b: "\<forall>x\<in>set (boundary_offsets cs). ?x \<le> x \<and> x \<le> LastDurationOffset st'"
    and n: "boundary_offsets cs = [] \<longrightarrow> LastDurationOffset st' = ?x + dur"
    and t: "e = None \<longrightarrow> OffsetCompensation st' = LastDurationOffset st' + 8750000"
    by (simp_all add: session_post_def)
  have bo: "boundary_offsets (c # cs) = ?x # boundary_offsets cs"
    using assms(2,3) by (simp add: boundary_offsets_def)
  have "?x \<le> LastDurationOffset st'"
  proof (cases "boundary_offsets cs")
    case Nil
    then show ?thesis using n assms(5) by simp
  next
    case (Cons y ys)
    then have "y \<in> set (boundary_offsets cs)" by simp
    with b show ?thesis by fastforce
  qed
  then show ?thesis
    using s b t assms(4) by (auto simp: session_post_def emit_def r bo)
qed

lemma good_reads_skip:
  "good_reads lb (m # ms) \<Longrightarrow> entries_of m = [] \<Longrightarrow> good_reads lb ms"
  by (simp add: good_reads_def Let_def)

lemma parseMetadata_loop_Inr:
  "parseMetadata_loop u st metas = Inr c \<Longrightarrow>
     \<exists>m\<in>set metas. boundary_type (Meta_Type m) \<and> Type c = Meta_Type m
        \<and> Offset c = Data_Offset m + OffsetCompensation st \<and> Duration c = Data_Duration m"
  by (induction metas) (auto simp: boundary_type_def Let_def split: if_splits)

lemma good_reads_metadata:
  assumes "good_reads lb (TextMessage ''audio.metadata'' (Some metas) # ms)"
    and "m \<in> set metas" "boundary_type (Meta_Type m)"
  shows "good_reads (Data_Offset m) ms \<and> lb \<le> Data_Offset m \<and> 0 \<le> Data_Duration m"
proof -
  let ?bt = "\<lambda>m. boundary_type (Meta_Type m)"
  let ?a = "filter ?bt metas" and ?b = "filter ?bt (concat (map entries_of ms))"
  from assms(1) have la: "list_all (\<lambda>m. lb \<le> Data_Offset m \<and> 0 \<le> Data_Duration m) ?a"
    and lb: "list_all (\<lambda>m. lb \<le> Data_Offset m \<and> 0 \<le> Data_Duration m) ?b"
    and so: "sorted (map Data_Offset ?a @ map Data_Offset ?b)"
    and cl: "CloseNormal \<notin> set ms"
    by (simp_all add: good_reads_def Let_def)
  have m: "m \<in> set ?a" using assms(2,3) by simp
  from so have "\<forall>x\<in>set (map Data_Offset ?a). \<forall>y\<in>set (map Data_Offset ?b). x \<le> y"
    and sb: "sorted (map Data_Offset ?b)" by (simp_all add: sorted_append)
  with m have "\<forall>y\<in>set ?b. Data_Offset m \<le> Data_Offset y" by auto
  then have "list_all (\<lambda>y. Data_Offset m \<le> Data_Offset y \<and> 0 \<le> Data_Duration y) ?b"
    using lb by (auto simp: list_all_iff)
  moreover have "lb \<le> Data_Offset m \<and> 0 \<le> Data_Duration m" using la m by (auto simp: list_all_iff)
  ultimately show ?thesis using sb cl by (simp add: good_reads_def Let_def)
qed

lemma receive_loop_post:
  "good_reads lb ms \<Longrightarrow> session_post lb st (receive_loop u st a ms)"
proof (induction ms arbitrary: st a lb)
  case Nil
  then show ?case by (simp add: post_error)
next
  case (Cons m ms)
  show ?case
  proof (cases m)
    case ContextDone
    then show ?thesis by (simp add: post_error)
  next
    case ReadFailed
    then show ?thesis by (simp add: post_error)
  next
    case CloseNormal
    then show ?thesis using Cons.prems by (simp add: good_reads_def Let_def)
  next
    case TextNoHeader
    then show ?thesis using Cons.IH[OF good_reads_skip[OF Cons.prems]] by simp
  next
    case (TextMessage path body)
    show ?thesis
    proof (cases "path = ''audio.metadata''")
      case meta: True
      show ?thesis
      proof (cases "parseMetadata u st body")
        case (Inl e)
        then show ?thesis using TextMessage meta by (simp add: post_error)
      next
        case (Inr c)
        then obtain metas where body: "body = Some metas" and pl: "parseMetadata_loop u st metas = Inr c"
          by (cases body) (auto simp: parseMetadata_def)
        from parseMetadata_loop_Inr[OF pl] obtain mt where
          mt: "mt \<in> set metas" "boundary_type (Meta_Type mt)" "Type c = Meta_Type mt"
              "Offset c = Data_Offset mt + OffsetCompensation st" "Duration c = Data_Duration mt"
          by blast
        from good_reads_metadata[OF Cons.prems[unfolded TextMessage meta body] mt(1,2)]
        have g: "good_reads (Data_Offset mt) ms" "lb \<le> Data_Offset mt" "0 \<le> Data_Duration mt"
          by simp_all
        let ?st1 = "st\<lparr>LastDurationOffset := Data_Offset mt + OffsetCompensation st + Data_Duration mt\<rparr>"
        have "session_post (Data_Offset mt) ?st1 (receive_loop u ?st1 a ms)"
          by (rule Cons.IH[OF g(1)])
        then have "session_post lb st (emit c (receive_loop u ?st1 a ms))"
          using mt g by (intro post_boundary[where off = "Data_Offset mt" and dur = "Data_Duration mt"]) simp_all
        then show ?thesis using TextMessage meta Inr mt by simp
      qed
    next
      case other: False
      then have e: "entries_of m = []" using TextMessage by (cases body) simp_all
      show ?thesis
        using TextMessage other Cons.IH[OF good_reads_skip[OF Cons.prems e]]
        by (simp add: post_error done_stream_def session_post_def)
    qed
  next
    case (BinaryMessage n hl path ct body)
    have "session_post lb st (receive_loop u st b ms)" for b
      using Cons.IH[OF good_reads_skip[OF Cons.prems]] BinaryMessage by simp
    then show ?thesis
      using BinaryMessage by (simp add: post_error post_skip boundary_type_def)
  qed
qed

lemma well_behaved_good_reads: "well_behaved conn \<Longrightarrow> good_reads 0 (reads conn)"
  by (auto simp: well_behaved_def good_reads_def session_entries_def Let_def list_all_iff)

lemma stream_post: "well_behaved conn \<Longrightarrow> session_post 0 st (stream u st conn)"
  by (simp add: stream_def post_error receive_loop_post well_behaved_good_reads)

lemma sorted_boundary_offsets_take:
  "sorted (boundary_offsets cs) \<Longrightarrow> sorted (boundary_offsets (take k cs))"
proof -
  assume "sorted (boundary_offsets cs)"
  then have "sorted (boundary_offsets (take k cs @ drop k cs))" by simp
  then show ?thesis unfolding boundary_offsets_append by (simp add: sorted_append)
qed

lemma set_boundary_offsets_take: "set (boundary_offsets (take k cs)) \<subseteq> set (boundary_offsets cs)"
  by (auto simp: boundary_offsets_def dest: in_set_takeD)

lemma Stream_loop_sorted:
  assumes "\<forall>j. i \<le> j \<and> j < i + length ts \<longrightarrow> well_behaved (net j)"
    and "b \<le> OffsetCompensation st" "b \<le> LastDurationOffset st"
  shows "sorted (boundary_offsets (fst (Stream_loop u net i st ts)))
         \<and> (\<forall>x\<in>set (boundary_offsets (fst (Stream_loop u net i st ts))). b \<le> x)"
  using assms
proof (induction ts arbitrary: i st b)
  case Nil
  then show ?case by simp
next
  case (Cons t ts)
  let ?st = "st\<lparr>PartialText := t\<rparr>"
  obtain cs e st1 where s: "stream u ?st (net i) = (cs, e, st1)"
    by (cases "stream u ?st (net i)") auto
  have wb: "well_behaved (net i)" using Cons.prems(1) by simp
  from stream_post[OF wb, of ?st u] s have
    so: "sorted (boundary_offsets cs)"
    and bd: "\<forall>x\<in>set (boundary_offsets cs). OffsetCompensation st \<le> x \<and> x \<le> LastDurationOffset st1"
    and nl: "boundary_offsets cs = [] \<longrightarrow> LastDurationOffset st1 = LastDurationOffset st"
    and te: "e = None \<longrightarrow> OffsetCompensation st1 = LastDurationOffset st1 + 8750000"
    by (simp_all add: session_post_def)
  have cut: "sorted (boundary_offsets (take k cs)) \<and> (\<forall>x\<in>set (boundary_offsets (take k cs)). b \<le> x)" for k
    using set_boundary_offsets_take[of k cs] bd Cons.prems(2) sorted_boundary_offsets_take[OF so, of k]
    by fastforce
  show ?case
  proof (cases "cancelled (net i)")
    case (Some k)
    then have "fst (Stream_loop u net i st (t # ts)) = take k cs" using s by simp
    then show ?thesis using cut[of k] by (simp del: Stream_loop.simps)
  next
    case nc: None
    show ?thesis
    proof (cases e)
      case (Some err)
      then have "fst (Stream_loop u net i st (t # ts)) = take (forwarded (net i)) cs"
        using s nc by simp
      then show ?thesis using cut[of "forwarded (net i)"] by (simp del: Stream_loop.simps)
    next
      case None
      let ?r = "Stream_loop u net (Suc i) st1 ts"
      have eq: "fst (Stream_loop u net i st (t # ts)) = cs @ fst ?r"
        using s None nc by (simp split: prod.splits)
      have b1: "b \<le> LastDurationOffset st1"
      proof (cases "boundary_offsets cs")
        case Nil
        then show ?thesis using nl Cons.prems(3) by simp
      next
        case (Cons y ys)
        then have "y \<in> set (boundary_offsets cs)" by simp
        with bd Cons.prems(2) show ?thesis by fastforce
      qed
      have ih: "sorted (boundary_offsets (fst ?r))
                \<and> (\<forall>x\<in>set (boundary_offsets (fst ?r)). LastDurationOffset st1 \<le> x)"
        by (rule Cons.IH) (use Cons.prems(1) te None in auto)
      have "sorted (boundary_offsets cs @ boundary_offsets (fst ?r))"
        using so ih bd by (fastforce simp: sorted_append)
      moreover have "\<forall>x\<in>set (boundary_offsets cs @ boundary_offsets (fst ?r)). b \<le> x"
        using bd ih b1 Cons.prems(2) by fastforce
      ultimately show ?thesis unfolding eq boundary_offsets_append by simp
    qed
  qed
qed












lemma Stream_as_steps:
  "run_schedule u net [g, g, g] (start_world c) =
     (case Stream u c (net g) of
        (chunks, err, c1) \<Rightarrow>
          \<lparr>shared = c1,
           calls = (calls (start_world c))(g := \<lparr>stage_of = Finished, sent = chunks, failed = err\<rparr>)\<rparr>)"
proof (cases "StreamWasCalled (state c)")
  case True
  then show ?thesis
    by (simp add: run_schedule_def goroutine_step_def start_world_def Stream_def)
next
  case False
  obtain cs e st where s: "Stream_loop u (net g) 0 ((state c)\<lparr>StreamWasCalled := True\<rparr>) (texts c) = (cs, e, st)"
    by (cases "Stream_loop u (net g) 0 ((state c)\<lparr>StreamWasCalled := True\<rparr>) (texts c)") auto
  then show ?thesis using False
    by (simp add: run_schedule_def goroutine_step_def start_world_def Stream_def)
qed

section \<open>The session engine: claims\<close>

text \<open>
  Claim C6, as the code has it. On the decoded entries of an \<open>audio.metadata\<close> frame,
  \<open>parseMetadata\<close> passes over the leading \<open>SessionEnd\<close> entries and looks at the first
  entry that is not one: a \<open>WordBoundary\<close> or \<open>SentenceBoundary\<close> entry gives exactly one
  boundary event (its offset is the server offset plus the current compensation) and
  the entries after it are not looked at; an entry of any other type gives the
  unknown-response error; and a frame with no such entry (empty, or \<open>SessionEnd\<close> entries
  only) gives the unexpected-response error. The read loop sends the event and goes on,
  or sends the error and ends the session.
\<close>

theorem parseMetadata_spec:
  "parseMetadata u st (Some metas) =
     (case dropWhile (\<lambda>m. Meta_Type m = ''SessionEnd'') metas of
        [] \<Rightarrow> Inl ErrUnexpectedResponse
      | m # rest \<Rightarrow>
          if boundary_type (Meta_Type m)
          then Inr \<lparr>Type = Meta_Type m, Data = [], Duration = Data_Duration m,
                    Offset = Data_Offset m + OffsetCompensation st, Text = u (Data_Text_Text m)\<rparr>
          else Inl ErrUnknownResponse)
   \<and> receive_loop u st a (TextMessage ''audio.metadata'' (Some metas) # ms) =
     (case parseMetadata u st (Some metas) of
        Inl err \<Rightarrow> ([], Some err, st)
      | Inr parsed \<Rightarrow>
          emit parsed (receive_loop u (st\<lparr>LastDurationOffset := Offset parsed + Duration parsed\<rparr>) a ms))"
  by (simp add: parseMetadata_def parseMetadata_loop_dropWhile)

text \<open>
  A frame with a \<open>SessionEnd\<close> entry, a word boundary and a second word boundary gives the
  event of the first word boundary.
\<close>

theorem parseMetadata_spec_witness:
  "parseMetadata id st0
     (Some [\<lparr>Meta_Type = ''SessionEnd'', Data_Offset = 0, Data_Duration = 0, Data_Text_Text = ''''\<rparr>,
            \<lparr>Meta_Type = ''WordBoundary'', Data_Offset = 100, Data_Duration = 5, Data_Text_Text = ''one''\<rparr>,
            \<lparr>Meta_Type = ''WordBoundary'', Data_Offset = 200, Data_Duration = 5, Data_Text_Text = ''two''\<rparr>])
     = Inr \<lparr>Type = ''WordBoundary'', Data = [], Duration = 5, Offset = 100, Text = ''one''\<rparr>"
  using parseMetadata_spec[of id st0
     "[\<lparr>Meta_Type = ''SessionEnd'', Data_Offset = 0, Data_Duration = 0, Data_Text_Text = ''''\<rparr>,
       \<lparr>Meta_Type = ''WordBoundary'', Data_Offset = 100, Data_Duration = 5, Data_Text_Text = ''one''\<rparr>,
       \<lparr>Meta_Type = ''WordBoundary'', Data_Offset = 200, Data_Duration = 5, Data_Text_Text = ''two''\<rparr>]"]
  by (simp add: boundary_type_def st0_def)

text \<open>
  Claim C6 as stated fails: a frame whose only entry is \<open>SessionEnd\<close>, and a frame with no
  entry, are not ignored. \<open>parseMetadata\<close> returns the unexpected-response error on both,
  and a session that has received audio and would end with \<open>turn.end\<close> ends with that
  error instead.
\<close>

theorem parseMetadata_SessionEnd_counterexample:
  "parseMetadata id st0
     (Some [\<lparr>Meta_Type = ''SessionEnd'', Data_Offset = 0, Data_Duration = 0, Data_Text_Text = ''''\<rparr>])
     = Inl ErrUnexpectedResponse
   \<and> parseMetadata id st0 (Some []) = Inl ErrUnexpectedResponse
   \<and> receive_loop id st0 True
       [TextMessage ''audio.metadata''
          (Some [\<lparr>Meta_Type = ''SessionEnd'', Data_Offset = 0, Data_Duration = 0, Data_Text_Text = ''''\<rparr>]),
        TextMessage ''turn.end'' None]
     = ([], Some ErrUnexpectedResponse, st0)"
  by (simp add: parseMetadata_def)




text \<open>
  Claim C1, as the code has it. The offsets of the boundary events that one call of
  \<open>Stream\<close> sends never decrease, also from one chunk of text to the next, provided that
  on every connection the offsets and durations that the server sends are not negative,
  the offsets of its boundary entries do not decrease, and the connection is not closed
  normally before \<open>turn.end\<close>. (Within a session the offset sent is the server offset
  plus the compensation, which does not change before \<open>turn.end\<close>; \<open>LastDurationOffset\<close>
  is the offset sent plus the duration and so is not below any offset sent so far; at
  \<open>turn.end\<close> the compensation becomes \<open>LastDurationOffset + 8750000\<close>.)
\<close>

theorem Stream_offsets_monotone:
  assumes "\<forall>i<length (texts c). well_behaved (net i)"
  shows "sorted (boundary_offsets (fst (Stream u c net)))"
proof (cases "StreamWasCalled (state c)")
  case True
  then show ?thesis by (simp add: Stream_def)
next
  case False
  let ?st = "(state c)\<lparr>StreamWasCalled := True\<rparr>"
  have "sorted (boundary_offsets (fst (Stream_loop u net 0 ?st (texts c))))"
    using Stream_loop_sorted[of 0 "texts c" net "min (OffsetCompensation ?st) (LastDurationOffset ?st)" ?st u] assms
    by simp
  then show ?thesis using False
    by (cases "Stream_loop u net 0 ?st (texts c)") (simp add: Stream_def)
qed

text \<open>
  Two connections that both end with \<open>turn.end\<close>: the word of the first turn is sent at
  offset 100, the word of the second turn, which the server puts at offset 0, at
  \<open>100 + 10 + 8750000\<close>.
\<close>

theorem Stream_offsets_monotone_witness:
  "list_all (\<lambda>i. well_behaved (turn_net i)) [0 ..< length (texts two_texts)]
   \<and> boundary_offsets (fst (Stream id two_texts turn_net)) = [100, 8750110]
   \<and> sorted (boundary_offsets (fst (Stream id two_texts turn_net)))"
proof -
  have wb: "well_behaved (turn_net i)" for i
    by (simp add: well_behaved_def turn_net_def connection_def session_entries_def
        word_frame_def audio_frame_def turn_end_def boundary_type_def)
  have "sorted (boundary_offsets (fst (Stream id two_texts turn_net)))"
    using Stream_offsets_monotone[of two_texts turn_net id] wb by simp
  moreover have "boundary_offsets (fst (Stream id two_texts turn_net)) = [100, 8750110]"
    by (simp add: Stream_def two_texts_def st0_def turn_net_def connection_def stream_def
        word_frame_def audio_frame_def turn_end_def parseMetadata_def emit_def done_stream_def
        boundary_offsets_def boundary_type_def)
  ultimately show ?thesis using wb by (simp add: list_all_iff)
qed

text \<open>
  Claim C1 as stated fails. The server's offsets do not decrease within either chunk,
  yet when the first connection is closed normally after its audio and before
  \<open>turn.end\<close>, the session ends without an error and without a new compensation, and
  the word of the second chunk is sent at offset 0 after the word of the first chunk at
  offset 100. A duration far below zero does the same through \<open>LastDurationOffset\<close>.
\<close>

theorem Stream_offsets_counterexample:
  "boundary_offsets (fst (Stream id two_texts closing_net)) = [100, 0]
   \<and> fst (snd (Stream id two_texts closing_net)) = None
   \<and> \<not> sorted (boundary_offsets (fst (Stream id two_texts closing_net)))
   \<and> boundary_offsets (fst (Stream id two_texts negative_net)) = [100, - 249900]
   \<and> \<not> sorted (boundary_offsets (fst (Stream id two_texts negative_net)))"
  by (simp add: Stream_def two_texts_def st0_def closing_net_def negative_net_def connection_def
      stream_def word_frame_def audio_frame_def turn_end_def parseMetadata_def emit_def
      done_stream_def boundary_offsets_def boundary_type_def)

section \<open>The subtitle assembler and the SRT rendering: lemmas\<close>

lemma Feed_error_iff:
  "(fst (Feed sm msg) \<noteq> None) =
     (\<not> boundary_type (Type msg) \<or> (CueType sm \<noteq> '''' \<and> CueType sm \<noteq> Type msg))"
  by (auto simp: Feed_def boundary_type_def Let_def)

lemma Feed_error_state: "fst (Feed sm msg) \<noteq> None \<Longrightarrow> snd (Feed sm msg) = sm"
  by (auto simp: Feed_def Let_def split: if_splits)

lemma Feed_ok_state:
  "fst (Feed sm msg) = None \<Longrightarrow>
     snd (Feed sm msg) =
       \<lparr>Cues = Cues sm @ [\<lparr>Index = int (length (Cues sm)) + 1,
                             Start = wrap64 (float_to_int64 (Offset msg / 10) * 1000),
                             End = wrap64 (float_to_int64 ((Offset msg + Duration msg) / 10) * 1000),
                             Content = Text msg\<rparr>],
        CueType = Type msg\<rparr>"
  by (auto simp: Feed_def Let_def Microsecond_def split: if_splits)

lemma wrap64_id: "- 9223372036854775808 \<le> i \<Longrightarrow> i < 9223372036854775808 \<Longrightarrow> wrap64 i = i"
  by (simp add: wrap64_def)

lemma whole_micros:
  fixes x :: real
  assumes "0 \<le> x" "x < 9007199254740992"
  shows "wrap64 (float_to_int64 (x / 10) * 1000) = \<lfloor>x / 10\<rfloor> * 1000"
proof -
  have t0: "0 \<le> \<lfloor>x / 10\<rfloor>" using assms(1) by simp
  have "x / 10 < 9007199254740992" using assms by simp
  then have t1: "\<lfloor>x / 10\<rfloor> < 9007199254740992" by (simp add: floor_less_iff)
  have "float_to_int64 (x / 10) = \<lfloor>x / 10\<rfloor>"
    using assms(1) t0 t1 by (simp add: float_to_int64_def float_to_int_def Let_def)
  moreover have "wrap64 (\<lfloor>x / 10\<rfloor> * 1000) = \<lfloor>x / 10\<rfloor> * 1000"
  proof (rule wrap64_id)
    have "0 \<le> \<lfloor>x / 10\<rfloor> * 1000" using t0 by simp
    then show "- 9223372036854775808 \<le> \<lfloor>x / 10\<rfloor> * 1000" by linarith
    have "\<lfloor>x / 10\<rfloor> * 1000 < 9007199254740992 * 1000" using t1 by linarith
    then show "\<lfloor>x / 10\<rfloor> * 1000 < 9223372036854775808" by linarith
  qed
  ultimately show ?thesis by simp
qed

lemma whole_ticks_cue:
  assumes "whole_ticks msg"
  shows "wrap64 (float_to_int64 (Offset msg / 10) * 1000) = \<lfloor>Offset msg / 10\<rfloor> * 1000"
    and "wrap64 (float_to_int64 ((Offset msg + Duration msg) / 10) * 1000)
           = \<lfloor>(Offset msg + Duration msg) / 10\<rfloor> * 1000"
proof -
  from assms have o: "0 \<le> Offset msg" and d: "0 \<le> Duration msg"
    and s: "Offset msg + Duration msg < 9007199254740992"
    by (auto simp: whole_ticks_def Nats_def)
  show "wrap64 (float_to_int64 (Offset msg / 10) * 1000) = \<lfloor>Offset msg / 10\<rfloor> * 1000"
    using o d s by (intro whole_micros) simp_all
  show "wrap64 (float_to_int64 ((Offset msg + Duration msg) / 10) * 1000)
           = \<lfloor>(Offset msg + Duration msg) / 10\<rfloor> * 1000"
    using o d s by (intro whole_micros) simp_all
qed

lemma FeedAll_append: "FeedAll sm (xs @ ys) = FeedAll (FeedAll sm xs) ys"
  by (induction xs arbitrary: sm) auto

lemma FeedAll_CueType:
  "CueType sm = '''' \<Longrightarrow>
     CueType (FeedAll sm msgs) = (case first_kind msgs of None \<Rightarrow> '''' | Some k \<Rightarrow> k)"
proof (induction msgs arbitrary: sm)
  case Nil
  then show ?case by (simp add: first_kind_def)
next
  case (Cons m msgs)
  show ?case
  proof (cases "boundary_type (Type m)")
    case False
    then have "snd (Feed sm m) = sm" by (auto simp: Feed_def boundary_type_def)
    with Cons False show ?thesis by (simp add: first_kind_def)
  next
    case True
    then have k: "CueType (snd (Feed sm m)) = Type m" and ne: "Type m \<noteq> ''''"
      using Cons.prems by (auto simp: Feed_def boundary_type_def Let_def)
    have keep: "CueType (FeedAll sm' xs) = CueType sm'" if "CueType sm' \<noteq> ''''" for sm' xs
      using that
    proof (induction xs arbitrary: sm')
      case Nil
      then show ?case by simp
    next
      case (Cons x xs)
      have "CueType (snd (Feed sm' x)) = CueType sm'"
        using Cons.prems by (auto simp: Feed_def Let_def)
      with Cons show ?case by simp
    qed
    from keep[of "snd (Feed sm m)" msgs] k ne True show ?thesis by (simp add: first_kind_def)
  qed
qed

lemma replicate_numeral_eval: "replicate (numeral k) x = x # replicate (pred_numeral k) x"
  by (simp add: numeral_eq_Suc)

lemma digits_eval:
  "digits 0 = ''0''" "digits 1 = ''1''" "digits (Suc 0) = ''1''" "digits 2 = ''2''"
  by (simp_all add: digits.simps char_of_eq_iff)

lemma format_0d_eval:
  "format_0d 2 0 = ''00''" "format_0d 2 1 = ''01''" "format_0d 2 2 = ''02''"
  "format_0d 3 0 = ''000''"
  by (simp_all add: format_0d_def digits_eval replicate_numeral_eval)

lemma timeDurationToSRTTimestamp_eval:
  "timeDurationToSRTTimestamp 0 = ''00:00:00,000''"
  "timeDurationToSRTTimestamp 1000000000 = ''00:00:01,000''"
  "timeDurationToSRTTimestamp 2000000000 = ''00:00:02,000''"
  by (simp_all add: timeDurationToSRTTimestamp_def float_to_int_def go_div_def go_mod_def
      format_0d_eval)

section \<open>The subtitle assembler and the SRT rendering: claims\<close>

text \<open>
  Claim C8, as the code has it. Let the assembler have been fed any messages \<open>msgs\<close> from
  its creation, and let \<open>msg\<close> be fed next. \<open>Feed\<close> returns an error exactly when the type
  of \<open>msg\<close> is neither \<open>WordBoundary\<close> nor \<open>SentenceBoundary\<close>, or differs from the kind of
  the first message that was accepted. When it returns no error, exactly one cue is
  appended, with the number of cues so far plus one as its index and the text of \<open>msg\<close>
  as its content, and the kind is the type of \<open>msg\<close>; when the offset and the duration are
  whole numbers of ticks with a sum below \<open>2^53\<close>, the start of the cue is \<open>offset / 10\<close>
  and its end \<open>(offset + duration) / 10\<close> in whole microseconds (a \<open>Duration\<close> counts
  nanoseconds). When it returns an error, the cues and the kind are as before.
\<close>

theorem Feed_spec:
  "(let sm = FeedAll NewSubMaker msgs; r = Feed sm msg in
     ((fst r \<noteq> None) =
        (\<not> boundary_type (Type msg) \<or> (\<exists>k. first_kind msgs = Some k \<and> k \<noteq> Type msg)))
     \<and> (if fst r = None
        then \<exists>cue. snd r = \<lparr>Cues = Cues sm @ [cue], CueType = Type msg\<rparr>
               \<and> Index cue = int (length (Cues sm)) + 1 \<and> Content cue = Text msg
               \<and> (whole_ticks msg \<longrightarrow>
                    Start cue = \<lfloor>Offset msg / 10\<rfloor> * 1000
                    \<and> End cue = \<lfloor>(Offset msg + Duration msg) / 10\<rfloor> * 1000)
        else snd r = sm))"
proof -
  let ?sm = "FeedAll NewSubMaker msgs"
  have ct: "CueType ?sm = (case first_kind msgs of None \<Rightarrow> [] | Some k \<Rightarrow> k)"
    by (rule FeedAll_CueType) (simp add: NewSubMaker_def)
  have kind_ne: "k \<noteq> []" if "first_kind msgs = Some k" for k
    using that by (auto simp: first_kind_def boundary_type_def find_Some_iff)
  have "(CueType ?sm \<noteq> [] \<and> CueType ?sm \<noteq> Type msg) = (\<exists>k. first_kind msgs = Some k \<and> k \<noteq> Type msg)"
    using ct kind_ne by (cases "first_kind msgs") auto
  then have err: "(fst (Feed ?sm msg) \<noteq> None) =
        (\<not> boundary_type (Type msg) \<or> (\<exists>k. first_kind msgs = Some k \<and> k \<noteq> Type msg))"
    using Feed_error_iff[of ?sm msg] by simp
  have ok: "\<exists>cue. snd (Feed ?sm msg) = \<lparr>Cues = Cues ?sm @ [cue], CueType = Type msg\<rparr>
               \<and> Index cue = int (length (Cues ?sm)) + 1 \<and> Content cue = Text msg
               \<and> (whole_ticks msg \<longrightarrow>
                    Start cue = \<lfloor>Offset msg / 10\<rfloor> * 1000
                    \<and> End cue = \<lfloor>(Offset msg + Duration msg) / 10\<rfloor> * 1000)"
    if "fst (Feed ?sm msg) = None"
    using Feed_ok_state[OF that] whole_ticks_cue[of msg] by simp
  show ?thesis
    using err ok Feed_error_state[of ?sm msg] by (simp add: Let_def)
qed

text \<open>
  After one word boundary, a sentence boundary is refused and changes nothing; a second
  word boundary is accepted and becomes the cue of index 2, from 0.7 s to 1.2 s.
\<close>

theorem Feed_spec_witness:
  "fst (Feed (FeedAll NewSubMaker [boundary_chunk ''WordBoundary'' 1000000 5000000 ''one''])
          (boundary_chunk ''SentenceBoundary'' 7000000 5000000 ''two''))
     = Some (UnexpectedMessageType ''WordBoundary'' ''SentenceBoundary'')
   \<and> snd (Feed (FeedAll NewSubMaker [boundary_chunk ''WordBoundary'' 1000000 5000000 ''one''])
          (boundary_chunk ''SentenceBoundary'' 7000000 5000000 ''two''))
     = FeedAll NewSubMaker [boundary_chunk ''WordBoundary'' 1000000 5000000 ''one'']
   \<and> whole_ticks (boundary_chunk ''WordBoundary'' 7000000 5000000 ''two'')
   \<and> Feed (FeedAll NewSubMaker [boundary_chunk ''WordBoundary'' 1000000 5000000 ''one''])
          (boundary_chunk ''WordBoundary'' 7000000 5000000 ''two'')
     = (None, \<lparr>Cues = [\<lparr>Index = 1, Start = 100000000, End = 600000000, Content = ''one''\<rparr>,
                        \<lparr>Index = 2, Start = 700000000, End = 1200000000, Content = ''two''\<rparr>],
               CueType = ''WordBoundary''\<rparr>)"
proof -
  let ?sm = "FeedAll NewSubMaker [boundary_chunk ''WordBoundary'' 1000000 5000000 ''one'']"
  let ?two = "boundary_chunk ''WordBoundary'' 7000000 5000000 ''two''"
  have sm: "?sm = \<lparr>Cues = [\<lparr>Index = 1, Start = 100000000, End = 600000000, Content = ''one''\<rparr>],
                   CueType = ''WordBoundary''\<rparr>"
    by (simp add: NewSubMaker_def Feed_def boundary_chunk_def float_to_int64_def float_to_int_def
        wrap64_def Microsecond_def)
  have e: "fst (Feed ?sm (boundary_chunk ''SentenceBoundary'' 7000000 5000000 ''two''))
            = Some (UnexpectedMessageType ''WordBoundary'' ''SentenceBoundary'')"
    unfolding sm by (simp add: Feed_def boundary_chunk_def)
  have u: "snd (Feed ?sm (boundary_chunk ''SentenceBoundary'' 7000000 5000000 ''two'')) = ?sm"
    using Feed_spec[of "[boundary_chunk ''WordBoundary'' 1000000 5000000 ''one'']"
        "boundary_chunk ''SentenceBoundary'' 7000000 5000000 ''two''"] e
    by (simp add: Let_def)
  have w: "whole_ticks ?two"
    by (simp add: whole_ticks_def boundary_chunk_def)
  have n: "fst (Feed ?sm ?two) = None"
    unfolding sm by (simp add: Feed_def boundary_chunk_def)
  from Feed_spec[of "[boundary_chunk ''WordBoundary'' 1000000 5000000 ''one'']" ?two] n w
  obtain cue where c: "snd (Feed ?sm ?two) = \<lparr>Cues = Cues ?sm @ [cue], CueType = Type ?two\<rparr>"
    "Index cue = int (length (Cues ?sm)) + 1" "Content cue = Text ?two"
    "Start cue = \<lfloor>Offset ?two / 10\<rfloor> * 1000" "End cue = \<lfloor>(Offset ?two + Duration ?two) / 10\<rfloor> * 1000"
    by (auto simp: Let_def)
  have cu: "cue = \<lparr>Index = 2, Start = 700000000, End = 1200000000, Content = ''two''\<rparr>"
    using c(2-5) unfolding sm by (cases cue) (simp add: boundary_chunk_def)
  have r: "Feed ?sm ?two = (None, \<lparr>Cues = Cues ?sm @ [cue], CueType = Type ?two\<rparr>)"
    using c(1) n by (metis prod.collapse)
  have "Feed ?sm ?two
     = (None, \<lparr>Cues = [\<lparr>Index = 1, Start = 100000000, End = 600000000, Content = ''one''\<rparr>,
                        \<lparr>Index = 2, Start = 700000000, End = 1200000000, Content = ''two''\<rparr>],
               CueType = ''WordBoundary''\<rparr>)"
    unfolding r unfolding sm cu by (simp add: boundary_chunk_def)
  then show ?thesis using e u w by blast
qed

text \<open>
  Claim C8 as stated fails where the count of nanoseconds leaves the range of \<open>int64\<close>:
  a first word at offset \<open>10^17\<close> ticks (\<open>10^16\<close> microseconds) is accepted, and the start
  of its cue is not \<open>10^19\<close> nanoseconds but that number less \<open>2^64\<close>, which is below zero.
\<close>

theorem Feed_overflow_counterexample:
  "Feed NewSubMaker (boundary_chunk ''WordBoundary'' 100000000000000000 0 ''x'')
     = (None, \<lparr>Cues = [\<lparr>Index = 1, Start = - 8446744073709551616, End = - 8446744073709551616,
                         Content = ''x''\<rparr>],
               CueType = ''WordBoundary''\<rparr>)
   \<and> \<lfloor>Offset (boundary_chunk ''WordBoundary'' 100000000000000000 0 ''x'') / 10\<rfloor> * 1000
     = 10000000000000000000"
  by (simp add: NewSubMaker_def Feed_def boundary_chunk_def float_to_int64_def float_to_int_def
      wrap64_def Microsecond_def)

text \<open>
  Claim C9, evaluated. A cue that is skipped and stands before a survivor in the sorted
  order takes one from the survivor's index: \<open>sortAndReindex\<close> counts the skipped cues in
  \<open>skipped\<close> and writes \<open>idx - skipped\<close>, but advances \<open>idx\<close> for the survivors only. With
  one cue of no duration before it, the only surviving cue gets index 0 and not 1; the
  same through the assembler, when the first word has duration 0.
\<close>

theorem sortAndReindex_skipped_before_survivor:
  "sortAndReindex [\<lparr>Index = 1, Start = 0, End = 0, Content = ''x''\<rparr>,
                   \<lparr>Index = 2, Start = 0, End = 1000000000, Content = ''hi''\<rparr>] 1 True
     = [\<lparr>Index = 0, Start = 0, End = 1000000000, Content = ''hi''\<rparr>]
   \<and> ComposeSRT [\<lparr>Index = 1, Start = 0, End = 0, Content = ''x''\<rparr>,
                  \<lparr>Index = 2, Start = 0, End = 1000000000, Content = ''hi''\<rparr>] True 1 []
     = ''0'' @ [newline] @ ''00:00:00,000 --> 00:00:01,000'' @ [newline] @ ''hi'' @ [newline, newline]
   \<and> GetSRT (FeedAll NewSubMaker [boundary_chunk ''WordBoundary'' 0 0 ''x'',
                                   boundary_chunk ''WordBoundary'' 10000000 10000000 ''hi''])
     = ''0'' @ [newline] @ ''00:00:01,000 --> 00:00:02,000'' @ [newline] @ ''hi'' @ [newline, newline]"
proof -
  have t1: "TrimSpace ''x'' = ''x''" and t2: "TrimSpace ''hi'' = ''hi''"
    by (simp_all add: TrimSpace_def utf8_eval)
  have s: "sortAndReindex [\<lparr>Index = 1, Start = 0, End = 0, Content = ''x''\<rparr>,
                   \<lparr>Index = 2, Start = 0, End = 1000000000, Content = ''hi''\<rparr>] 1 True
     = [\<lparr>Index = 0, Start = 0, End = 1000000000, Content = ''hi''\<rparr>]"
    by (simp add: sortAndReindex_def sort_subtitles_def subtitle_less_def t1 t2)
  have f: "FeedAll NewSubMaker [boundary_chunk ''WordBoundary'' 0 0 ''x'',
                                   boundary_chunk ''WordBoundary'' 10000000 10000000 ''hi'']
     = \<lparr>Cues = [\<lparr>Index = 1, Start = 0, End = 0, Content = ''x''\<rparr>,
                \<lparr>Index = 2, Start = 1000000000, End = 2000000000, Content = ''hi''\<rparr>],
        CueType = ''WordBoundary''\<rparr>"
    by (simp add: NewSubMaker_def Feed_def boundary_chunk_def float_to_int64_def float_to_int_def
        wrap64_def Microsecond_def)
  have s2: "sortAndReindex [\<lparr>Index = 1, Start = 0, End = 0, Content = ''x''\<rparr>,
                   \<lparr>Index = 2, Start = 1000000000, End = 2000000000, Content = ''hi''\<rparr>] 1 True
     = [\<lparr>Index = 0, Start = 1000000000, End = 2000000000, Content = ''hi''\<rparr>]"
    by (simp add: sortAndReindex_def sort_subtitles_def subtitle_less_def t1 t2)
  have m: "makeLegalContent ''hi'' = ''hi''"
    by (simp add: makeLegalContent_def newline_def)
  note d = digits_eval and ts = timeDurationToSRTTimestamp_eval
  have c1: "ComposeSRT [\<lparr>Index = 1, Start = 0, End = 0, Content = ''x''\<rparr>,
                  \<lparr>Index = 2, Start = 0, End = 1000000000, Content = ''hi''\<rparr>] True 1 []
     = ''0'' @ [newline] @ ''00:00:00,000 --> 00:00:01,000'' @ [newline] @ ''hi'' @ [newline, newline]"
    by (simp add: ComposeSRT_def s ToSRT_def Let_def m ts format_d_def d)
  have c2: "GetSRT (FeedAll NewSubMaker [boundary_chunk ''WordBoundary'' 0 0 ''x'',
                                   boundary_chunk ''WordBoundary'' 10000000 10000000 ''hi''])
     = ''0'' @ [newline] @ ''00:00:01,000 --> 00:00:02,000'' @ [newline] @ ''hi'' @ [newline, newline]"
    unfolding f by (simp add: GetSRT_def ComposeSRT_def s2 ToSRT_def Let_def m ts format_d_def d)
  show ?thesis using s c1 c2 by simp
qed

text \<open>
  Claim C10, evaluated. A content that ends in one newline, does not start with one and
  holds no two newlines in a row takes the early return of \<open>makeLegalContent\<close> and keeps
  its last newline; the same content with a newline in front takes the other path, which
  cuts both. The cue is rendered with three newlines after its content.
\<close>

theorem makeLegalContent_trailing_newline:
  "makeLegalContent (''hi'' @ [newline]) = ''hi'' @ [newline]
   \<and> makeLegalContent (newline # ''hi'' @ [newline]) = ''hi''
   \<and> ToSRT \<lparr>Index = 1, Start = 0, End = 1000000000, Content = ''hi'' @ [newline]\<rparr> []
     = ''1'' @ [newline] @ ''00:00:00,000 --> 00:00:01,000'' @ [newline] @ ''hi''
         @ [newline, newline, newline]"
proof -
  have m: "makeLegalContent [CHR ''h'', CHR ''i'', newline] = [CHR ''h'', CHR ''i'', newline]"
    by (simp add: makeLegalContent_def newline_def)
  have m2: "makeLegalContent (newline # ''hi'' @ [newline]) = ''hi''"
    by (simp add: makeLegalContent_def Trim_newlines_def newline_def)
  note d = digits_eval and ts = timeDurationToSRTTimestamp_eval
  have "ToSRT \<lparr>Index = 1, Start = 0, End = 1000000000, Content = ''hi'' @ [newline]\<rparr> []
     = ''1'' @ [newline] @ ''00:00:00,000 --> 00:00:01,000'' @ [newline] @ ''hi''
         @ [newline, newline, newline]"
    by (simp add: ToSRT_def Let_def m ts format_d_def d)
  then show ?thesis using m m2 by simp
qed

section \<open>The voice and the token: lemmas\<close>

lemma not_lower_dash: "\<not> is_lower CHR ''-''" and not_upper_dash: "\<not> is_upper CHR ''-''"
  by (simp_all add: is_lower_def is_upper_def byte_def)

lemma voicePattern_short_form:
  assumes "short_form lang region name"
  shows "voicePattern (lang @ ''-'' @ region @ ''-'' @ name) = Some (lang, region, name)"
proof -
  from assms have l: "\<forall>c\<in>set lang. is_lower c" and r: "\<forall>c\<in>set region. is_upper c"
    and n: "2 \<le> length lang" "2 \<le> length region" "6 < length name" "suffix ''Neural'' name"
      "newline \<notin> set name"
    by (simp_all add: short_form_def list_all_iff)
  have t1: "takeWhile is_lower (lang @ ''-'' @ region @ ''-'' @ name) = lang"
    and d1: "dropWhile is_lower (lang @ ''-'' @ region @ ''-'' @ name) = ''-'' @ region @ ''-'' @ name"
    using l by (simp_all add: takeWhile_append2 dropWhile_append2 not_lower_dash)
  have t2: "takeWhile is_upper (region @ ''-'' @ name) = region"
    and d2: "dropWhile is_upper (region @ ''-'' @ name) = ''-'' @ name"
    using r by (simp_all add: takeWhile_append2 dropWhile_append2 not_upper_dash)
  show ?thesis
    unfolding voicePattern_def t1 d1 using n t2 d2 by (simp add: Let_def)
qed

lemma voiceFullPattern_long_form:
  assumes "lang \<noteq> []" "newline \<notin> set lang" "newline \<notin> set r" "newline \<notin> set n"
  shows "voiceFullPattern (long_form lang r n)"
proof -
  let ?rest = "lang @ ''-'' @ r @ '', '' @ n @ '')''"
  have d: "drop (length ''Microsoft Server Speech Text to Speech Voice ('') (long_form lang r n) = ?rest"
    and p: "prefix ''Microsoft Server Speech Text to Speech Voice ('' (long_form lang r n)"
    by (simp_all add: long_form_def)
  have b: "butlast ?rest = lang @ ''-'' @ r @ '', '' @ n"
    by (simp add: butlast_append)
  have t: "tl (lang @ ''-'' @ r @ '', '' @ n) = tl lang @ ''-'' @ r @ '', '' @ n"
    using assms(1) by simp
  have c: "CHR '','' \<in> set (butlast (tl lang @ ''-'' @ r @ '', '' @ n))"
    by (simp add: butlast_append)
  have nl: "newline \<notin> set (lang @ ''-'' @ r @ '', '' @ n)"
    using assms by (simp add: newline_def)
  show ?thesis
    unfolding voiceFullPattern_def Let_def d b t using p c nl by simp
qed

lemma lower_no_newline: "list_all is_lower s \<Longrightarrow> newline \<notin> set s"
  by (auto simp: list_all_iff is_lower_def newline_def byte_def)

lemma upper_no_newline: "list_all is_upper s \<Longrightarrow> newline \<notin> set s"
  by (auto simp: list_all_iff is_upper_def newline_def byte_def)

lemma absorb_no_newline:
  assumes "newline \<notin> set region" "newline \<notin> set name"
  shows "newline \<notin> set (fst (absorb region name)) \<and> newline \<notin> set (snd (absorb region name))"
proof -
  have "set (takeWhile (\<lambda>c. c \<noteq> CHR ''-'') name) \<subseteq> set name"
    by (auto dest: set_takeWhileD)
  moreover have "set (tl xs) \<subseteq> set xs" for xs :: string
    by (cases xs) auto
  then have "set (tl (dropWhile (\<lambda>c. c \<noteq> CHR ''-'') name)) \<subseteq> set name"
    by (fastforce dest: set_dropWhileD)
  ultimately show ?thesis using assms by (auto simp: absorb_def newline_def)
qed

lemma digits_step:
  "digits (numeral k) =
     (if (numeral k :: nat) < 10 then [char_of (48 + (numeral k :: nat))]
      else digits (numeral k div 10) @ [char_of (48 + (numeral k :: nat) mod 10)])"
  by (rule digits.simps)

text \<open>
  When the skew is a whole number of seconds and the corrected time is not before the
  Windows epoch, the string that is hashed is the one the specification describes.
\<close>

lemma round_half_even_of_int: "round_half_even (of_int z) = z"
  by (simp add: round_half_even_def)

lemma strToHash_integral:
  assumes k: "clockSkewSeconds d = of_int k" and nn: "0 \<le> now + k + 11644473600"
  shows "strToHash d now = format_d (spec_ticks (GetUnixTimestamp d now)) @ TrustedClientToken"
proof -
  define T where "T = now + k + 11644473600"
  have t: "GetUnixTimestamp d now + WinEpoch = of_int T"
    by (simp add: GetUnixTimestamp_def WinEpoch_def k T_def)
  have f: "float_to_int (of_int T) = T"
    using nn by (simp add: float_to_int_def T_def)
  have m: "go_mod T 300 = T mod 300"
    using nn by (cases "T = 0") (simp_all add: go_mod_def T_def)
  have "(of_int T - of_int (T mod 300)) * (SToNS / 100) = (of_int ((T div 300) * 300 * 10000000) :: real)"
  proof -
    have "T - T mod 300 = (T div 300) * 300" by (simp add: minus_mod_eq_div_mult)
    then have "(of_int T - of_int (T mod 300) :: real) = of_int ((T div 300) * 300)"
      by (metis of_int_diff)
    then show ?thesis by (simp add: SToNS_def)
  qed
  then have lhs: "strToHash d now = format_d ((T div 300) * 300 * 10000000) @ TrustedClientToken"
    unfolding strToHash_def Let_def t f m format_f0_def
    by (simp only: round_half_even_of_int)
  have "(GetUnixTimestamp d now + 11644473600) / 300 = (of_int T :: real) / of_int 300"
    using t by (simp add: WinEpoch_def)
  then have "\<lfloor>(GetUnixTimestamp d now + 11644473600) / 300\<rfloor> = T div 300"
    by (simp only: floor_divide_of_int_eq)
  then show ?thesis using lhs by (simp add: spec_ticks_def)
qed

section \<open>The voice and the token: claims\<close>

text \<open>
  Claim C5, as the code has it. A voice \<open>lang-REGION-name\<close> in which \<open>lang\<close> is two or more
  lower-case letters, \<open>REGION\<close> two or more upper-case letters, and \<open>name\<close> ends in
  \<open>Neural\<close> after at least one more character, is rewritten by \<open>ValidateTTSConfig\<close> to
  the long form \<open>Microsoft Server Speech Text to Speech Voice (lang-region, name)\<close>, where
  the region takes what stands before the first dash of the name (if the name holds
  one), and the voice is accepted: whatever the rest of the configuration, the error is
  not \<open>ErrInvalidVoice\<close>.
\<close>

theorem ValidateTTSConfig_short_form:
  assumes "short_form lang region name"
  shows "Voice (snd (ValidateTTSConfig (tc\<lparr>Voice := lang @ ''-'' @ region @ ''-'' @ name\<rparr>)))
           = long_form lang (fst (absorb region name)) (snd (absorb region name))
         \<and> fst (ValidateTTSConfig (tc\<lparr>Voice := lang @ ''-'' @ region @ ''-'' @ name\<rparr>))
           \<noteq> Some ErrInvalidVoice"
proof -
  let ?v = "lang @ ''-'' @ region @ ''-'' @ name"
  let ?r = "fst (absorb region name)" and ?n = "snd (absorb region name)"
  from assms have ne: "lang \<noteq> []" and ll: "list_all is_lower lang" and lr: "list_all is_upper region"
    and nn: "newline \<notin> set name"
    by (auto simp: short_form_def)
  have ab: "newline \<notin> set ?r" "newline \<notin> set ?n"
    using absorb_no_newline[OF upper_no_newline[OF lr] nn] by simp_all
  have full: "voiceFullPattern (long_form lang ?r ?n)"
    by (rule voiceFullPattern_long_form[OF ne lower_no_newline[OF ll] ab])
  have lf: "''Microsoft Server Speech Text to Speech Voice ('' @ lang @ ''-'' @ ?r @ '', '' @ ?n @ '')''
              = long_form lang ?r ?n"
    by (simp add: long_form_def)
  have "ValidateTTSConfig (tc\<lparr>Voice := ?v\<rparr>) =
      (let tc1 = tc\<lparr>Voice := long_form lang ?r ?n\<rparr>
       in if \<not> voiceFullPattern (Voice tc1) then (Some ErrInvalidVoice, tc1)
         else if \<not> ratePattern (Rate tc1) then (Some ErrInvalidRate, tc1)
         else if \<not> volumePattern (Volume tc1) then (Some ErrInvalidVolume, tc1)
         else if \<not> pitchPattern (Pitch tc1) then (Some ErrInvalidPitch, tc1)
         else (None, tc1))"
    unfolding ValidateTTSConfig_def
    using voicePattern_short_form[OF assms]
    by (simp add: absorb_def long_form_def Let_def)
  then show ?thesis using full by (simp add: Let_def)
qed

text \<open>The voice \<open>zh-CN-liaoning-XiaobeiNeural\<close> in the configuration of a new instance.\<close>

theorem ValidateTTSConfig_short_form_witness:
  "short_form ''zh'' ''CN'' ''liaoning-XiaobeiNeural''
   \<and> ValidateTTSConfig (config_of ''zh-CN-liaoning-XiaobeiNeural'')
     = (None, config_of ''Microsoft Server Speech Text to Speech Voice (zh-CN-liaoning, XiaobeiNeural)'')"
proof -
  have s: "short_form ''zh'' ''CN'' ''liaoning-XiaobeiNeural''"
    by (simp add: short_form_def is_lower_def is_upper_def byte_def suffix_to_prefix newline_def)
  have a: "absorb ''CN'' ''liaoning-XiaobeiNeural'' = (''CN-liaoning'', ''XiaobeiNeural'')"
    by (simp add: absorb_def)
  have c: "(config_of ''zh-CN-liaoning-XiaobeiNeural'')\<lparr>Voice := ''zh'' @ ''-'' @ ''CN'' @ ''-'' @ ''liaoning-XiaobeiNeural''\<rparr>
            = config_of ''zh-CN-liaoning-XiaobeiNeural''"
    by (simp add: config_of_def)
  from ValidateTTSConfig_short_form[OF s, of "config_of ''zh-CN-liaoning-XiaobeiNeural''"]
  have v: "Voice (snd (ValidateTTSConfig (config_of ''zh-CN-liaoning-XiaobeiNeural'')))
             = ''Microsoft Server Speech Text to Speech Voice (zh-CN-liaoning, XiaobeiNeural)''"
    and e: "fst (ValidateTTSConfig (config_of ''zh-CN-liaoning-XiaobeiNeural'')) \<noteq> Some ErrInvalidVoice"
    unfolding c a by (simp_all add: long_form_def)
  have r: "ratePattern ''+0%''" "volumePattern ''+0%''" "pitchPattern ''+0Hz''"
    by (simp_all add: ratePattern_def volumePattern_def pitchPattern_def signed_number_def
        suffix_to_prefix is_digit_def byte_def)
  have "ValidateTTSConfig (config_of ''zh-CN-liaoning-XiaobeiNeural'')
     = (None, config_of ''Microsoft Server Speech Text to Speech Voice (zh-CN-liaoning, XiaobeiNeural)'')"
    using v e r
    by (auto simp: ValidateTTSConfig_def config_of_def Let_def split: option.splits prod.splits if_splits)
  then show ?thesis using s by simp
qed

text \<open>
  Claim C5 as stated fails for the locales of three parts: in \<open>iu-Cans-CA-SiqiniqNeural\<close>
  and \<open>iu-Latn-CA-SiqiniqNeural\<close> the second part is not in upper case, the pattern of
  the short form does not match, the voice is left as it is and is refused with
  \<open>ErrInvalidVoice\<close>.
\<close>

theorem ValidateTTSConfig_script_locale_counterexample:
  "ValidateTTSConfig (config_of ''iu-Cans-CA-SiqiniqNeural'')
     = (Some ErrInvalidVoice, config_of ''iu-Cans-CA-SiqiniqNeural'')
   \<and> ValidateTTSConfig (config_of ''iu-Latn-CA-SiqiniqNeural'')
     = (Some ErrInvalidVoice, config_of ''iu-Latn-CA-SiqiniqNeural'')"
  by (simp add: ValidateTTSConfig_def config_of_def voicePattern_def voiceFullPattern_def
      is_lower_def is_upper_def byte_def Let_def)

text \<open>
  Claim C4, evaluated. With a clock skew of half a second (set through
  \<open>AdjClockSkewSeconds\<close>) and a wall clock of 1000 seconds, the corrected time is 1000.5.
  \<open>GenerateSecMSGEC\<close> takes away the remainder of the truncated value and keeps the half
  second: it hashes \<open>116444745005000000\<close> followed by the token literal, where the floor
  to the window of 300 seconds gives \<open>116444745000000000\<close>.
\<close>

theorem GenerateSecMSGEC_fractional_skew:
  "GetUnixTimestamp (AdjClockSkewSeconds \<lparr>clockSkewSeconds = 0\<rparr> (1 / 2)) 1000 = 2001 / 2
   \<and> strToHash (AdjClockSkewSeconds \<lparr>clockSkewSeconds = 0\<rparr> (1 / 2)) 1000
     = ''116444745005000000'' @ TrustedClientToken
   \<and> GenerateSecMSGEC sha (AdjClockSkewSeconds \<lparr>clockSkewSeconds = 0\<rparr> (1 / 2)) 1000
     = ToUpper (EncodeToString (sha (''116444745005000000'' @ TrustedClientToken)))
   \<and> format_d (spec_ticks (2001 / 2)) = ''116444745000000000''"
proof -
  have t: "GetUnixTimestamp (AdjClockSkewSeconds \<lparr>clockSkewSeconds = 0\<rparr> (1 / 2)) 1000 = 2001 / 2"
    by (simp add: GetUnixTimestamp_def AdjClockSkewSeconds_def)
  have d1: "digits 116444745005000000 = ''116444745005000000''"
    by (simp add: digits_step digits_eval char_of_eq_iff)
  have d2: "digits 116444745000000000 = ''116444745000000000''"
    by (simp add: digits_step digits_eval char_of_eq_iff)
  have f: "float_to_int (2001 / 2 + WinEpoch) = 11644474600"
    by (simp add: float_to_int_def WinEpoch_def)
  have s: "strToHash (AdjClockSkewSeconds \<lparr>clockSkewSeconds = 0\<rparr> (1 / 2)) 1000
     = ''116444745005000000'' @ TrustedClientToken"
    unfolding strToHash_def t Let_def f
    by (simp add: go_mod_def WinEpoch_def SToNS_def format_f0_def round_half_even_def format_d_def d1)
  have c: "format_d (spec_ticks (2001 / 2)) = ''116444745000000000''"
    by (simp add: spec_ticks_def format_d_def d2)
  show ?thesis using t s c by (simp add: GenerateSecMSGEC_def)
qed


end
